theory Spec2Isabelle
  imports Main
begin

section \<open>JavaScript strings\<close>

text \<open>
  A JavaScript string is a sequence of UTF-16 code units.  The fixed messages of
  \<^verbatim>\<open>ttsRoutes.js\<close> are written in Chinese, so they appear here as lists of code units;
  ASCII text is written with \<open>ascii\<close>.
\<close>

type_synonym js_string = "nat list"

definition ascii :: "string \<Rightarrow> js_string" where
  "ascii s = map of_char s"

text \<open>
  \<^verbatim>\<open>String.prototype.trim\<close> removes white space and line terminators from both ends:
  TAB, LF, VT, FF, CR, SP, NBSP, U+1680, U+2000 to U+200A, U+2028, U+2029, U+202F, U+205F,
  U+3000 and U+FEFF.
\<close>

definition is_white_space :: "nat \<Rightarrow> bool" where
  "is_white_space c \<longleftrightarrow>
     c \<in> {0x9, 0xA, 0xB, 0xC, 0xD, 0x20, 0xA0, 0x1680, 0x2028, 0x2029, 0x202F, 0x205F,
          0x3000, 0xFEFF}
     \<or> (0x2000 \<le> c \<and> c \<le> 0x200A)"

definition trim :: "js_string \<Rightarrow> js_string" where
  "trim s = rev (dropWhile is_white_space (rev (dropWhile is_white_space s)))"

text \<open>\<^verbatim>\<open>String(n)\<close> for a non-negative integer: its decimal digits.\<close>

fun String_of :: "nat \<Rightarrow> js_string" where
  "String_of n = (if n < 10 then [48 + n] else String_of (n div 10) @ [48 + n mod 10])"

declare String_of.simps [simp del]

text \<open>\<^verbatim>\<open>s.padStart(k, c)\<close> with a one-character filler: shorter strings are filled on the
  left, longer ones are returned as they are.\<close>

definition padStart :: "nat \<Rightarrow> nat \<Rightarrow> js_string \<Rightarrow> js_string" where
  "padStart k c s = replicate (k - length s) c @ s"

section \<open>Data of the batch route\<close>

text \<open>The parsed JSON body may hold any JSON value where a sentence is expected.  The payload
  of a number plays no role in the route.\<close>

datatype json =
    JNull
  | JBool bool
  | JNumber int
  | JString js_string
  | JArray "json list"
  | JObject "(js_string \<times> json) list"

text \<open>An \<^verbatim>\<open>Error\<close> object, reduced to its \<^verbatim>\<open>message\<close>.\<close>

datatype js_error = Error (message: js_string)

datatype 'a settled = Fulfilled 'a | Rejected js_error

text \<open>One element of \<^verbatim>\<open>results\<close>; \<open>text_field\<close> is its property \<^verbatim>\<open>text\<close>, which holds the
  trimmed string or, for a rejected task, the element of the request as it came.
  \<^verbatim>\<open>audioPath: null\<close> and an absent \<^verbatim>\<open>error\<close> are \<open>None\<close>.\<close>

record job_result =
  index :: nat
  text_field :: json
  audioPath :: "js_string option"
  success :: bool
  error :: "js_string option"

text \<open>The body of the 200 response, without its constant \<^verbatim>\<open>success: true\<close>.\<close>

record batch_outcome =
  batchId_of :: js_string
  total :: nat
  successCount :: nat
  results :: "job_result list"

text \<open>The responses of the handler: the two 400 responses of the checks on the sentence list
  and on the voice, the 500 response when edge-tts is not installed, the 500 response of the
  \<^verbatim>\<open>catch\<close> block with \<^verbatim>\<open>error.message\<close>, and the 200 response.\<close>

datatype response =
    InvalidSentences400
  | InvalidVoice400
  | EdgeTtsMissing500
  | BatchFailed500 js_string
  | Ok200 batch_outcome

text \<open>The fixed messages: U+7A7A U+6587 U+672C (``empty text''), U+672A U+77E5 U+9519 U+8BEF
  (``unknown error''), and the four messages of \<^verbatim>\<open>generateAudio\<close>.\<close>

definition EMPTY_TEXT :: js_string where
  "EMPTY_TEXT = [0x7A7A, 0x6587, 0x672C]"

definition UNKNOWN_ERROR :: js_string where
  "UNKNOWN_ERROR = [0x672A, 0x77E5, 0x9519, 0x8BEF]"

definition TEXT_CONTENT_EMPTY :: js_string where
  "TEXT_CONTENT_EMPTY = [0x6587, 0x672C, 0x5185, 0x5BB9, 0x4E3A, 0x7A7A]"

definition AUDIO_FILE_EMPTY :: js_string where
  "AUDIO_FILE_EMPTY = [0x751F, 0x6210, 0x7684, 0x97F3, 0x9891, 0x6587, 0x4EF6, 0x4E3A, 0x7A7A]"

definition AUDIO_FILE_MISSING :: js_string where
  "AUDIO_FILE_MISSING = [0x97F3, 0x9891, 0x6587, 0x4EF6, 0x672A, 0x751F, 0x6210]"

definition EXEC_FAILED_PREFIX :: js_string where
  "EXEC_FAILED_PREFIX = ascii ''edge-tts'' @ [0x6267, 0x884C, 0x5931, 0x8D25] @ ascii '': ''"

section \<open>The external engine and the environment\<close>

text \<open>
  \<^verbatim>\<open>execSync(command, {timeout: 60000})\<close> runs the engine as a blocking subprocess.  It throws
  when the process cannot be started or exits with a non-zero status, and when the process is
  killed at the 60 second limit; the payload is \<^verbatim>\<open>err.message\<close>.  When it returns, the
  file at the output path is absent (\<open>None\<close>) or has some size.
\<close>

datatype exec_outcome =
    NonZeroExit js_string
  | TimedOut js_string
  | Exited "nat option"

text \<open>
  What the route reads from outside: the fresh identifier \<^verbatim>\<open>uuidv4()\<close>, the audio directory
  and the path separator of \<^verbatim>\<open>path.join\<close>, the engine, what a repeated \<^verbatim>\<open>checkEdgeTts()\<close> finds,
  the truth value of \<^verbatim>\<open>VOICE_OPTIONS[voice]\<close>, and the message of the \<^verbatim>\<open>TypeError\<close> that
  \<^verbatim>\<open>sentence.trim()\<close> throws for a value that is not a string.
\<close>

record env =
  uuidv4 :: js_string
  audioDir :: js_string
  path_sep :: nat
  execSync :: "js_string \<Rightarrow> exec_outcome"
  checkEdgeTts :: bool
  VOICE_OPTIONS :: "js_string \<Rightarrow> bool"
  trim_TypeError :: "json \<Rightarrow> js_string"

text \<open>The module state \<^verbatim>\<open>edgeTtsAvailable\<close>, and the commands handed to \<^verbatim>\<open>execSync\<close> so far,
  oldest first.\<close>

record server =
  edgeTtsAvailable :: bool
  calls :: "js_string list"

record request =
  body_sentences :: "json option"
  body_voice :: "js_string option"
  body_rate :: "js_string option"

definition MAX_CONCURRENT :: nat where
  "MAX_CONCURRENT = 5"

definition DEFAULT_VOICE :: js_string where
  "DEFAULT_VOICE = ascii ''en-US-JennyNeural''"

section \<open>generateAudio\<close>

definition clean_text :: "js_string \<Rightarrow> js_string" where
  "clean_text t =
     trim (filter (\<lambda>c. c \<noteq> 0xD)
       (map (\<lambda>c. if c = 0xA then 0x20 else c)
         (map (\<lambda>c. if c = 0x22 then 0x27 else c) t)))"

definition command_line :: "js_string \<Rightarrow> js_string \<Rightarrow> js_string \<Rightarrow> js_string \<Rightarrow> js_string" where
  "command_line cleanText voice rate outputPath =
     ascii ''edge-tts --text '' @ [0x22] @ cleanText @ [0x22] @ ascii '' --voice '' @ voice
     @ ascii '' --rate '' @ rate @ ascii '' --write-media '' @ [0x22] @ outputPath @ [0x22]"

text \<open>The promise returned by \<^verbatim>\<open>generateAudio\<close> is settled when the call returns, since
  \<^verbatim>\<open>execSync\<close> blocks.  The second component is the extended list of engine commands.\<close>

definition generateAudio ::
  "env \<Rightarrow> js_string \<Rightarrow> js_string \<Rightarrow> js_string \<Rightarrow> js_string \<Rightarrow> js_string list
     \<Rightarrow> js_string settled \<times> js_string list" where
  "generateAudio E txt voice outputPath rate cs =
     (let cleanText = clean_text txt in
      if cleanText = [] then (Rejected (Error TEXT_CONTENT_EMPTY), cs)
      else
        let command = command_line cleanText voice rate outputPath in
        (case execSync E command of
           NonZeroExit m \<Rightarrow> Rejected (Error (EXEC_FAILED_PREFIX @ m))
         | TimedOut m \<Rightarrow> Rejected (Error (EXEC_FAILED_PREFIX @ m))
         | Exited None \<Rightarrow> Rejected (Error AUDIO_FILE_MISSING)
         | Exited (Some bytes) \<Rightarrow>
             if bytes > 0 then Fulfilled outputPath else Rejected (Error AUDIO_FILE_EMPTY),
         cs @ [command]))"

section \<open>The tasks of the batch route\<close>

definition filename_of :: "js_string \<Rightarrow> nat \<Rightarrow> js_string" where
  "filename_of batchId i = batchId @ ascii ''_'' @ padStart 3 0x30 (String_of (i + 1)) @ ascii ''.mp3''"

definition path_join :: "env \<Rightarrow> js_string \<Rightarrow> js_string" where
  "path_join E filename = audioDir E @ [path_sep E] @ filename"

type_synonym 'a task = "js_string list \<Rightarrow> 'a settled \<times> js_string list"

text \<open>The async function built for sentence \<open>i\<close>.  Calling \<^verbatim>\<open>trim\<close> on a value that is not a
  string throws, so the task's promise is rejected; every failure of \<^verbatim>\<open>generateAudio\<close> is
  caught and becomes a fulfilled failure record.\<close>

definition task_of :: "env \<Rightarrow> js_string \<Rightarrow> js_string \<Rightarrow> js_string \<Rightarrow> nat \<Rightarrow> json \<Rightarrow> job_result task" where
  "task_of E batchId voice rate i sentence cs =
     (case sentence of
        JString s \<Rightarrow>
          (let txt = trim s in
           if txt = [] then
             (Fulfilled \<lparr>index = i, text_field = JString [], audioPath = None, success = False,
                error = Some EMPTY_TEXT\<rparr>, cs)
           else
             let filename = filename_of batchId i;
                 outputPath = path_join E filename
             in (case generateAudio E txt voice outputPath rate cs of
                   (Fulfilled _, cs') \<Rightarrow>
                     (Fulfilled \<lparr>index = i, text_field = JString txt,
                        audioPath = Some (ascii ''/audio/'' @ filename), success = True,
                        error = None\<rparr>, cs')
                 | (Rejected err, cs') \<Rightarrow>
                     (Fulfilled \<lparr>index = i, text_field = JString txt, audioPath = None,
                        success = False, error = Some (message err)\<rparr>, cs')))
      | _ \<Rightarrow> (Rejected (Error (trim_TypeError E sentence)), cs))"

section \<open>parallelLimit\<close>

text \<open>
  The function is modelled for the tasks of the route, one request at a time, with the
  promise jobs of ECMAScript: jobs run in the order in which they were queued, and awaiting a
  settled native promise takes one job.

  \<^verbatim>\<open>Promise.resolve().then(() => task())\<close> queues the start of the task.  Every task runs to
  its end inside the job that starts it, but for one step: the only thing a task awaits is
  \<^verbatim>\<open>generateAudio\<close>, whose promise is settled when it is returned, since the engine runs
  inside the blocking \<^verbatim>\<open>execSync\<close>.  So the engine runs happen one after the other in task
  order, the promises \<open>p\<close> settle in task order, and so do the promises
  \<open>e = p.then(splice)\<close>.  A fulfilled \<open>p\<close> makes \<open>e\<close> remove itself from \<open>executing\<close>; a rejected
  \<open>p\<close> rejects \<open>e\<close> without running the handler, so that \<open>e\<close> stays in \<open>executing\<close>.  Hence,
  when \<^verbatim>\<open>Promise.race(executing)\<close> is awaited, the array holds the rejected entries left from
  before, followed by the pending entries of the tasks started since the last await; all of
  these tasks run before the race settles, and the race settles like the first entry.  When
  the loop resumes after a fulfilled race, all entries have settled and the rejected ones alone
  remain.  A rejected race makes \<^verbatim>\<open>await\<close> throw, which ends \<^verbatim>\<open>parallelLimit\<close> with a rejected
  promise before \<^verbatim>\<open>Promise.allSettled\<close> is reached.  An empty race would never settle.
\<close>

definition Promise_race :: "'a settled list \<Rightarrow> 'a settled option" where
  "Promise_race executing = (case executing of [] \<Rightarrow> None | e # _ \<Rightarrow> Some e)"

fun is_Rejected :: "'a settled \<Rightarrow> bool" where
  "is_Rejected (Rejected _) = True"
| "is_Rejected (Fulfilled _) = False"

datatype 'a pl_outcome = Returned "'a settled list" | Threw js_error | Hangs

text \<open>One pass through the body of the \<^verbatim>\<open>for\<close> loop of \<^verbatim>\<open>parallelLimit\<close>; \<open>n\<close> is
  \<^verbatim>\<open>tasks.length\<close>, \<open>rs\<close> is \<^verbatim>\<open>results\<close> and \<open>ex\<close> is \<^verbatim>\<open>executing\<close>, each entry standing for a
  promise and holding the way it settles.  The pass ends the function (\<open>Inl\<close>) when the awaited
  race is rejected, and otherwise hands the two arrays to the next pass.\<close>

definition pl_body ::
  "nat \<Rightarrow> nat \<Rightarrow> 'a task \<Rightarrow> 'a settled list \<Rightarrow> 'a settled list \<Rightarrow> js_string list
     \<Rightarrow> ('a pl_outcome + 'a settled list \<times> 'a settled list) \<times> js_string list" where
  "pl_body limit n task rs ex cs =
     (case task cs of (p, cs') \<Rightarrow>
        if limit \<le> n then
          if length (ex @ [p]) \<ge> limit then
            (case Promise_race (ex @ [p]) of
               None \<Rightarrow> (Inl Hangs, cs')
             | Some (Rejected err) \<Rightarrow> (Inl (Threw err), cs')
             | Some (Fulfilled _) \<Rightarrow> (Inr (rs @ [p], filter is_Rejected (ex @ [p])), cs'))
          else (Inr (rs @ [p], ex @ [p]), cs')
        else (Inr (rs @ [p], ex), cs'))"

text \<open>The loop, and \<^verbatim>\<open>Promise.allSettled(results)\<close> after it: every promise of \<open>rs\<close> has
  settled, so the settlements are the entries themselves.\<close>

fun pl_loop ::
  "nat \<Rightarrow> nat \<Rightarrow> 'a task list \<Rightarrow> 'a settled list \<Rightarrow> 'a settled list \<Rightarrow> js_string list
     \<Rightarrow> 'a pl_outcome \<times> js_string list" where
  "pl_loop limit n [] rs ex cs = (Returned rs, cs)"
| "pl_loop limit n (task # tasks) rs ex cs =
     (case pl_body limit n task rs ex cs of
        (Inl out, cs') \<Rightarrow> (out, cs')
      | (Inr (rs', ex'), cs') \<Rightarrow> pl_loop limit n tasks rs' ex' cs')"

definition parallelLimit :: "'a task list \<Rightarrow> nat \<Rightarrow> js_string list \<Rightarrow> 'a pl_outcome \<times> js_string list" where
  "parallelLimit tasks limit cs = pl_loop limit (length tasks) tasks [] [] cs"

section \<open>POST /generate-batch\<close>

text \<open>The element of \<^verbatim>\<open>results\<close> built from settlement \<open>r\<close> at position \<open>i\<close>.\<close>

definition result_of :: "json list \<Rightarrow> nat \<Rightarrow> job_result settled \<Rightarrow> job_result" where
  "result_of sentences i r =
     (case r of
        Fulfilled v \<Rightarrow> v
      | Rejected reason \<Rightarrow>
          \<lparr>index = i, text_field = sentences ! i, audioPath = None, success = False,
           error = Some (if message reason = [] then UNKNOWN_ERROR else message reason)\<rparr>)"

text \<open>\<^verbatim>\<open>settledResults.map((r, i) => ...)\<close>.\<close>

definition collect :: "json list \<Rightarrow> job_result settled list \<Rightarrow> job_result list" where
  "collect sentences settledResults =
     map (\<lambda>(i, r). result_of sentences i r) (enumerate 0 settledResults)"

text \<open>\<open>sort_step\<close> is \<^verbatim>\<open>results.sort((a, b) => a.index - b.index)\<close>, a stable sort.\<close>

definition sort_step :: "job_result list \<Rightarrow> job_result list" where
  "sort_step rs = sort_key index rs"

definition respond :: "js_string \<Rightarrow> json list \<Rightarrow> job_result list \<Rightarrow> response" where
  "respond batchId sentences rs =
     Ok200 \<lparr>batchId_of = batchId, total = length sentences,
            successCount = length (filter success rs), results = rs\<rparr>"

text \<open>The handler answers once, or not at all if \<^verbatim>\<open>parallelLimit\<close> never settles.\<close>

datatype reply = Reply response | NoReply

text \<open>The destructuring defaults of \<^verbatim>\<open>voice\<close> and \<^verbatim>\<open>rate\<close>.\<close>

definition voice_of :: "request \<Rightarrow> js_string" where
  "voice_of req = (case body_voice req of None \<Rightarrow> DEFAULT_VOICE | Some v \<Rightarrow> v)"

definition rate_of :: "request \<Rightarrow> js_string" where
  "rate_of req = (case body_rate req of None \<Rightarrow> ascii ''+0%'' | Some r \<Rightarrow> r)"

definition batch_tasks :: "env \<Rightarrow> js_string \<Rightarrow> js_string \<Rightarrow> js_string \<Rightarrow> json list \<Rightarrow> job_result task list" where
  "batch_tasks E batchId voice rate sentences =
     map (\<lambda>(i, sentence). task_of E batchId voice rate i sentence) (enumerate 0 sentences)"

definition generate_batch :: "env \<Rightarrow> server \<Rightarrow> request \<Rightarrow> reply \<times> server" where
  "generate_batch E S req =
     (let voice = voice_of req; rate = rate_of req
      in case body_sentences req of
           Some (JArray sentences) \<Rightarrow>
             if sentences = [] then (Reply InvalidSentences400, S)
             else if \<not> VOICE_OPTIONS E voice then (Reply InvalidVoice400, S)
             else
               let S1 = S\<lparr>edgeTtsAvailable := edgeTtsAvailable S \<or> checkEdgeTts E\<rparr> in
               if \<not> edgeTtsAvailable S1 then (Reply EdgeTtsMissing500, S1)
               else
                 let batchId = uuidv4 E;
                     tasks = batch_tasks E batchId voice rate sentences
                 in (case parallelLimit tasks MAX_CONCURRENT (calls S1) of
                       (Threw err, cs) \<Rightarrow> (Reply (BatchFailed500 (message err)), S1\<lparr>calls := cs\<rparr>)
                     | (Hangs, cs) \<Rightarrow> (NoReply, S1\<lparr>calls := cs\<rparr>)
                     | (Returned settledResults, cs) \<Rightarrow>
                         (Reply (respond batchId sentences
                            (sort_step (collect sentences settledResults))),
                          S1\<lparr>calls := cs\<rparr>))
         | _ \<Rightarrow> (Reply InvalidSentences400, S))"

text \<open>The same handler with the line \<^verbatim>\<open>results.sort(...)\<close> left out.\<close>

definition generate_batch_unsorted :: "env \<Rightarrow> server \<Rightarrow> request \<Rightarrow> reply \<times> server" where
  "generate_batch_unsorted E S req =
     (let voice = voice_of req; rate = rate_of req
      in case body_sentences req of
           Some (JArray sentences) \<Rightarrow>
             if sentences = [] then (Reply InvalidSentences400, S)
             else if \<not> VOICE_OPTIONS E voice then (Reply InvalidVoice400, S)
             else
               let S1 = S\<lparr>edgeTtsAvailable := edgeTtsAvailable S \<or> checkEdgeTts E\<rparr> in
               if \<not> edgeTtsAvailable S1 then (Reply EdgeTtsMissing500, S1)
               else
                 let batchId = uuidv4 E;
                     tasks = batch_tasks E batchId voice rate sentences
                 in (case parallelLimit tasks MAX_CONCURRENT (calls S1) of
                       (Threw err, cs) \<Rightarrow> (Reply (BatchFailed500 (message err)), S1\<lparr>calls := cs\<rparr>)
                     | (Hangs, cs) \<Rightarrow> (NoReply, S1\<lparr>calls := cs\<rparr>)
                     | (Returned settledResults, cs) \<Rightarrow>
                         (Reply (respond batchId sentences (collect sentences settledResults)),
                          S1\<lparr>calls := cs\<rparr>))
         | _ \<Rightarrow> (Reply InvalidSentences400, S))"

section \<open>Notions used in the statements and proofs\<close>

text \<open>What the task of sentence \<open>i\<close> settles to and which engine commands it issues; neither
  depends on the commands issued before.\<close>

definition settle_of :: "env \<Rightarrow> js_string \<Rightarrow> js_string \<Rightarrow> js_string \<Rightarrow> nat \<Rightarrow> json \<Rightarrow> job_result settled" where
  "settle_of E batchId voice rate i sentence = fst (task_of E batchId voice rate i sentence [])"

definition commands_of :: "env \<Rightarrow> js_string \<Rightarrow> js_string \<Rightarrow> js_string \<Rightarrow> nat \<Rightarrow> json \<Rightarrow> js_string list" where
  "commands_of E batchId voice rate i sentence = snd (task_of E batchId voice rate i sentence [])"

text \<open>Running tasks one after the other.\<close>

fun run_tasks :: "'a task list \<Rightarrow> js_string list \<Rightarrow> 'a settled list \<times> js_string list" where
  "run_tasks [] cs = ([], cs)"
| "run_tasks (task # tasks) cs =
     (case task cs of (p, cs') \<Rightarrow>
        (case run_tasks tasks cs' of (ps, cs'') \<Rightarrow> (p # ps, cs'')))"

text \<open>The engine command of job \<open>i\<close> with text \<open>txt\<close>.\<close>

definition job_command :: "env \<Rightarrow> js_string \<Rightarrow> js_string \<Rightarrow> nat \<Rightarrow> js_string \<Rightarrow> js_string" where
  "job_command E voice rate i txt =
     command_line (clean_text txt) voice rate (path_join E (filename_of (uuidv4 E) i))"

definition is_digit :: "nat \<Rightarrow> bool" where
  "is_digit c \<longleftrightarrow> 48 \<le> c \<and> c \<le> 57"

definition digits_value :: "js_string \<Rightarrow> nat" where
  "digits_value s = foldl (\<lambda>a d. 10 * a + (d - 48)) 0 s"

text \<open>A request that carries a list of sentence strings and passes the three checks of the
  handler.\<close>

definition accepted :: "env \<Rightarrow> server \<Rightarrow> request \<Rightarrow> json list \<Rightarrow> bool" where
  "accepted E S req sentences \<longleftrightarrow>
     body_sentences req = Some (JArray sentences) \<and> sentences \<noteq> []
     \<and> VOICE_OPTIONS E (voice_of req) \<and> (edgeTtsAvailable S \<or> checkEdgeTts E)"

text \<open>The result recorded for job \<open>i\<close>, the commands of a whole batch, and the body of the
  200 response when every position is filled with the result of its own job.\<close>

definition job_result_of :: "env \<Rightarrow> js_string \<Rightarrow> js_string \<Rightarrow> json list \<Rightarrow> nat \<Rightarrow> job_result" where
  "job_result_of E voice rate sentences i =
     result_of sentences i (settle_of E (uuidv4 E) voice rate i (sentences ! i))"

definition batch_commands :: "env \<Rightarrow> js_string \<Rightarrow> js_string \<Rightarrow> json list \<Rightarrow> js_string list" where
  "batch_commands E voice rate sentences =
     concat (map (\<lambda>(i, s). commands_of E (uuidv4 E) voice rate i s) (enumerate 0 sentences))"

definition route_outcome :: "env \<Rightarrow> request \<Rightarrow> json list \<Rightarrow> batch_outcome" where
  "route_outcome E req sentences =
     \<lparr>batchId_of = uuidv4 E, total = length sentences,
      successCount = length (filter success
        (map (job_result_of E (voice_of req) (rate_of req) sentences) [0..<length sentences])),
      results = map (job_result_of E (voice_of req) (rate_of req) sentences) [0..<length sentences]\<rparr>"

text \<open>The ways an engine run fails a job, and the message recorded for each.\<close>

fun engine_failed :: "exec_outcome \<Rightarrow> bool" where
  "engine_failed (NonZeroExit m) = True"
| "engine_failed (TimedOut m) = True"
| "engine_failed (Exited None) = True"
| "engine_failed (Exited (Some bytes)) = (bytes = 0)"

fun failure_message :: "exec_outcome \<Rightarrow> js_string" where
  "failure_message (NonZeroExit m) = EXEC_FAILED_PREFIX @ m"
| "failure_message (TimedOut m) = EXEC_FAILED_PREFIX @ m"
| "failure_message (Exited None) = AUDIO_FILE_MISSING"
| "failure_message (Exited (Some bytes)) = AUDIO_FILE_EMPTY"

definition blank_result :: "nat \<Rightarrow> job_result" where
  "blank_result i =
     \<lparr>index = i, text_field = JString [], audioPath = None, success = False,
      error = Some EMPTY_TEXT\<rparr>"

section \<open>parallelLimit as a transition system\<close>

text \<open>
  For the bound on simultaneous jobs, \<^verbatim>\<open>parallelLimit\<close> is read with tasks that settle at
  any later time and in any order.  A state holds the number of loop passes made, the array
  \<^verbatim>\<open>executing\<close> with each entry named by its task, the tasks that were started and whose
  entry has not settled yet, the tasks whose promise was rejected, and where the function
  stands: in the loop, suspended at \<^verbatim>\<open>await Promise.race(executing)\<close>, left by the exception
  of a rejected race, or past the loop.
\<close>

datatype pl_mode = InLoop | Awaiting | Thrown | PastLoop

record limiter =
  started :: nat
  executing :: "nat list"
  unsettled :: "nat set"
  rejected :: "nat set"
  mode :: pl_mode

definition pl_init :: limiter where
  "pl_init = \<lparr>started = 0, executing = [], unsettled = {}, rejected = {}, mode = InLoop\<rparr>"

text \<open>
  \<open>pass\<close> is one pass of the loop body: the next task gets its promise, the entry is pushed
  when \<^verbatim>\<open>limit <= tasks.length\<close>, and a full array makes the function await the race, which
  is rejected at once when the array holds a rejected entry.  \<open>leave\<close> ends the loop.
  \<open>fulfil\<close> and \<open>reject\<close> settle a started task: a fulfilled one splices its entry out of
  the array and lets an awaited race resolve, a rejected one keeps its entry and makes an
  awaited race throw.  Tasks keep settling after the function has thrown.
\<close>

inductive pl_step :: "nat \<Rightarrow> nat \<Rightarrow> limiter \<Rightarrow> limiter \<Rightarrow> bool" for limit n where
  pass: "mode s = InLoop \<Longrightarrow> started s < n \<Longrightarrow>
     pl_step limit n s
       (s\<lparr>started := Suc (started s),
          executing := (if limit \<le> n then executing s @ [started s] else executing s),
          unsettled := insert (started s) (unsettled s),
          mode := (if limit \<le> n \<and> limit \<le> length (executing s @ [started s])
                   then (if \<exists>j\<in>set (executing s). j \<in> rejected s then Thrown else Awaiting)
                   else InLoop)\<rparr>)"
| leave: "mode s = InLoop \<Longrightarrow> started s = n \<Longrightarrow> pl_step limit n s (s\<lparr>mode := PastLoop\<rparr>)"
| fulfil: "j \<in> unsettled s \<Longrightarrow>
     pl_step limit n s
       (s\<lparr>executing := remove1 j (executing s),
          unsettled := unsettled s - {j},
          mode := (if mode s = Awaiting \<and> j \<in> set (executing s) then InLoop else mode s)\<rparr>)"
| reject: "j \<in> unsettled s \<Longrightarrow>
     pl_step limit n s
       (s\<lparr>unsettled := unsettled s - {j},
          rejected := insert j (rejected s),
          mode := (if mode s = Awaiting \<and> j \<in> set (executing s) then Thrown else mode s)\<rparr>)"

definition reachable :: "nat \<Rightarrow> nat \<Rightarrow> limiter \<Rightarrow> bool" where
  "reachable limit n s \<longleftrightarrow> (pl_step limit n)\<^sup>*\<^sup>* pl_init s"

text \<open>What the bound rests on.\<close>

definition pl_inv :: "nat \<Rightarrow> nat \<Rightarrow> limiter \<Rightarrow> bool" where
  "pl_inv limit n s \<longleftrightarrow>
     started s \<le> n \<and>
     (if limit \<le> n then
        unsettled s \<subseteq> set (executing s) \<and> distinct (executing s)
        \<and> set (executing s) \<subseteq> {..<started s}
        \<and> length (executing s) \<le> limit
        \<and> (mode s = InLoop \<longrightarrow> length (executing s) < limit)
      else unsettled s \<subseteq> {..<started s})"

section \<open>A concrete batch\<close>

text \<open>An engine that always writes a file of 100 bytes, the batch identifier \<^verbatim>\<open>batchXYZ\<close>, and
  requests with the default voice and rate.\<close>

definition demo_env :: env where
  "demo_env =
     \<lparr>uuidv4 = ascii ''batchXYZ'', audioDir = ascii ''/srv/public/audio'', path_sep = 0x2F,
      execSync = (\<lambda>c. Exited (Some 100)), checkEdgeTts = True,
      VOICE_OPTIONS = (\<lambda>v. v = DEFAULT_VOICE),
      trim_TypeError = (\<lambda>j. ascii ''sentence.trim is not a function'')\<rparr>"

definition demo_server :: server where
  "demo_server = \<lparr>edgeTtsAvailable = True, calls = []\<rparr>"

definition demo_request :: "json list \<Rightarrow> request" where
  "demo_request sentences =
     \<lparr>body_sentences = Some (JArray sentences), body_voice = None, body_rate = None\<rparr>"

definition demo_sentences :: "js_string list" where
  "demo_sentences = [ascii ''Hello world.'', [], ascii ''Second sentence.'']"

text \<open>The expected body of the response for \<open>demo_sentences\<close>.\<close>

definition demo_outcome :: batch_outcome where
  "demo_outcome =
     \<lparr>batchId_of = ascii ''batchXYZ'', total = 3, successCount = 2,
      results =
        [\<lparr>index = 0, text_field = JString (ascii ''Hello world.''),
          audioPath = Some (ascii ''/audio/batchXYZ_001.mp3''), success = True, error = None\<rparr>,
         \<lparr>index = 1, text_field = JString [], audioPath = None, success = False,
          error = Some EMPTY_TEXT\<rparr>,
         \<lparr>index = 2, text_field = JString (ascii ''Second sentence.''),
          audioPath = Some (ascii ''/audio/batchXYZ_003.mp3''), success = True, error = None\<rparr>]\<rparr>"

text \<open>A list whose first element is a number.\<close>

definition bad_sentences :: "json list" where
  "bad_sentences = [JNumber 42, JString (ascii ''a''), JString (ascii ''b''),
     JString (ascii ''c''), JString (ascii ''d'')]"

text \<open>Four sentences, and an engine that fails on the second of them.\<close>

definition four_sentences :: "js_string list" where
  "four_sentences = [ascii ''One.'', ascii ''Two.'', ascii ''Three.'', ascii ''Four.'']"

definition failing_env :: env where
  "failing_env =
     demo_env\<lparr>execSync :=
       (\<lambda>c. if c = job_command demo_env DEFAULT_VOICE (ascii ''+0%'') (Suc 0) (ascii ''Two.'')
            then NonZeroExit (ascii ''Command failed'') else Exited (Some 100))\<rparr>"

section \<open>The loop at a given pass\<close>

text \<open>The arrays \<^verbatim>\<open>results\<close> and \<^verbatim>\<open>executing\<close> and the commands issued so far when the loop
  of \<^verbatim>\<open>parallelLimit\<close> is about to make its pass number \<open>k\<close> (counted from 0); \<open>None\<close> when the
  function has ended before, or when there are fewer tasks.\<close>

fun pl_state_before ::
  "nat \<Rightarrow> nat \<Rightarrow> 'a task list \<Rightarrow> nat \<Rightarrow> 'a settled list \<Rightarrow> 'a settled list \<Rightarrow> js_string list
     \<Rightarrow> ('a settled list \<times> 'a settled list \<times> js_string list) option" where
  "pl_state_before limit n tasks 0 rs ex cs = Some (rs, ex, cs)"
| "pl_state_before limit n [] (Suc k) rs ex cs = None"
| "pl_state_before limit n (task # tasks) (Suc k) rs ex cs =
     (case pl_body limit n task rs ex cs of
        (Inl out, cs') \<Rightarrow> None
      | (Inr (rs', ex'), cs') \<Rightarrow> pl_state_before limit n tasks k rs' ex' cs')"

text \<open>Five sentences of which the first is blank.\<close>

definition blank_batch :: "js_string list" where
  "blank_batch = [ascii ''  '', ascii ''Two.'', ascii ''Three.'', ascii ''Four.'', ascii ''Five.'']"

section \<open>Trimming\<close>

lemma trim_eq_Nil: "trim s = [] \<longleftrightarrow> (\<forall>c\<in>set s. is_white_space c)"
proof -
  let ?u = "dropWhile is_white_space s"
  have "trim s = [] \<longleftrightarrow> (\<forall>c\<in>set ?u. is_white_space c)"
    by (simp add: trim_def dropWhile_eq_Nil_conv)
  also have "\<dots> \<longleftrightarrow> ?u = []"
  proof
    assume a: "\<forall>c\<in>set ?u. is_white_space c"
    show "?u = []"
    proof (rule ccontr)
      assume "?u \<noteq> []"
      then have "\<not> is_white_space (hd ?u)" by (rule hd_dropWhile)
      moreover have "hd ?u \<in> set ?u" using \<open>?u \<noteq> []\<close> by simp
      ultimately show False using a by blast
    qed
  next
    assume e: "?u = []"
    show "\<forall>c\<in>set ?u. is_white_space c" unfolding e by simp
  qed
  also have "\<dots> \<longleftrightarrow> (\<forall>c\<in>set s. is_white_space c)"
    by (simp add: dropWhile_eq_Nil_conv)
  finally show ?thesis .
qed

lemma trim_nonempty_char: "trim s \<noteq> [] \<Longrightarrow> \<exists>c\<in>set (trim s). \<not> is_white_space c"
proof -
  assume ne: "trim s \<noteq> []"
  let ?u = "dropWhile is_white_space s"
  let ?v = "dropWhile is_white_space (rev ?u)"
  have t: "trim s = rev ?v" by (simp add: trim_def)
  from ne t have "?v \<noteq> []" by simp
  then have "\<not> is_white_space (hd ?v)" by (rule hd_dropWhile)
  moreover have "hd ?v \<in> set (trim s)" using \<open>?v \<noteq> []\<close> t by simp
  ultimately show ?thesis by blast
qed

lemma clean_text_nonempty:
  assumes "c \<in> set t" "\<not> is_white_space c"
  shows "clean_text t \<noteq> []"
proof -
  let ?q = "\<lambda>c::nat. if c = 0x22 then 0x27 else c"
  let ?n = "\<lambda>c::nat. if c = 0xA then 0x20 else c"
  from assms(2) have c10: "c \<noteq> 0xA" and c13: "c \<noteq> 0xD"
    by (auto simp: is_white_space_def)
  have nws: "\<not> is_white_space (?n (?q c))"
    using assms(2) by (auto simp: is_white_space_def)
  have n13: "?n (?q c) \<noteq> 0xD" using c13 by auto
  have "?n (?q c) \<in> set (filter (\<lambda>c. c \<noteq> 0xD) (map ?n (map ?q t)))"
    using assms(1) n13 by (simp del: map_map) blast
  with nws show ?thesis
    unfolding clean_text_def trim_eq_Nil by blast
qed

lemma clean_text_trim_nonempty: "trim s \<noteq> [] \<Longrightarrow> clean_text (trim s) \<noteq> []"
  using trim_nonempty_char clean_text_nonempty by blast

section \<open>Tasks and the loop of parallelLimit\<close>

lemma generateAudio_calls:
  "snd (generateAudio E txt voice outputPath rate cs) =
     cs @ snd (generateAudio E txt voice outputPath rate [])"
  by (simp add: generateAudio_def Let_def)

lemma generateAudio_settle:
  "fst (generateAudio E txt voice outputPath rate cs) =
     fst (generateAudio E txt voice outputPath rate [])"
  by (simp add: generateAudio_def Let_def)

lemma task_of_split:
  "task_of E b v r i s cs = (settle_of E b v r i s, cs @ commands_of E b v r i s)"
proof (cases s)
  case (JString x)
  obtain g gs where g: "generateAudio E (trim x) v (path_join E (filename_of b i)) r [] = (g, gs)"
    by (cases "generateAudio E (trim x) v (path_join E (filename_of b i)) r []")
  have "generateAudio E (trim x) v (path_join E (filename_of b i)) r cs = (g, cs @ gs)"
    using g generateAudio_calls [of E "trim x" v "path_join E (filename_of b i)" r cs]
      generateAudio_settle [of E "trim x" v "path_join E (filename_of b i)" r cs]
    by (simp add: prod_eq_iff)
  with g JString show ?thesis
    by (cases g) (simp_all add: task_of_def settle_of_def commands_of_def Let_def)
qed (simp_all add: task_of_def settle_of_def commands_of_def)

lemma run_tasks_Cons:
  "run_tasks (t # ts) cs =
     (fst (t cs) # fst (run_tasks ts (snd (t cs))), snd (run_tasks ts (snd (t cs))))"
  by (simp split: prod.splits)

lemma run_tasks_length: "length (fst (run_tasks tasks cs)) = length tasks"
  by (induction tasks arbitrary: cs) (simp_all add: run_tasks_Cons del: run_tasks.simps(2))

lemma run_batch_tasks:
  "run_tasks (map (\<lambda>(i, s). task_of E b v r i s) (enumerate k ss)) cs =
     (map (\<lambda>(i, s). settle_of E b v r i s) (enumerate k ss),
      cs @ concat (map (\<lambda>(i, s). commands_of E b v r i s) (enumerate k ss)))"
  by (induction ss arbitrary: k cs)
     (simp_all add: run_tasks_Cons task_of_split del: run_tasks.simps(2))


lemma Promise_race_snoc: "Promise_race (ex @ [p]) = Some (hd (ex @ [p]))"
  by (cases ex) (simp_all add: Promise_race_def)

lemma pl_loop_outcome:
  "pl_loop limit n tasks rs ex cs = (out, cs') \<Longrightarrow>
     (\<exists>err. out = Threw err) \<or>
     (out = Returned (rs @ fst (run_tasks tasks cs)) \<and> cs' = snd (run_tasks tasks cs))"
proof (induction tasks arbitrary: rs ex cs)
  case Nil
  then show ?case by simp
next
  case (Cons task tasks)
  obtain p c1 where t: "task cs = (p, c1)" by (cases "task cs")
  obtain ps c2 where r: "run_tasks tasks c1 = (ps, c2)" by (cases "run_tasks tasks c1")
  show ?case
  proof (cases "fst (pl_body limit n task rs ex cs)")
    case (Inl o1)
    with Cons.prems t have "out = o1" by (auto split: prod.splits sum.splits)
    moreover from Inl t have "o1 \<noteq> Hangs \<and> (\<forall>x. o1 \<noteq> Returned x)"
      by (auto simp: pl_body_def Promise_race_snoc split: if_splits settled.splits)
    ultimately show ?thesis by (cases out) auto
  next
    case (Inr st)
    obtain rs' ex' where st: "st = (rs', ex')" by (cases st)
    from Inr st t have b: "pl_body limit n task rs ex cs = (Inr (rs', ex'), c1)"
      by (auto simp: pl_body_def Promise_race_snoc split: if_splits settled.splits)
    then have rs': "rs' = rs @ [p]"
      using t by (auto simp: pl_body_def Promise_race_snoc split: if_splits settled.splits)
    from b Cons.prems have "pl_loop limit n tasks rs' ex' c1 = (out, cs')" by simp
    from Cons.IH [OF this] rs' t r show ?thesis by auto
  qed
qed

lemma pl_loop_fulfilled:
  assumes "\<forall>p\<in>set (fst (run_tasks tasks cs)). \<not> is_Rejected p"
      and "\<forall>e\<in>set ex. \<not> is_Rejected e"
  shows "pl_loop limit n tasks rs ex cs = (Returned (rs @ fst (run_tasks tasks cs)), snd (run_tasks tasks cs))"
  using assms
proof (induction tasks arbitrary: rs ex cs)
  case Nil
  then show ?case by simp
next
  case (Cons task tasks)
  obtain p c1 where t: "task cs = (p, c1)" by (cases "task cs")
  obtain ps c2 where r: "run_tasks tasks c1 = (ps, c2)" by (cases "run_tasks tasks c1")
  from Cons.prems(1) t r have p: "\<not> is_Rejected p" and ps: "\<forall>p\<in>set (fst (run_tasks tasks c1)). \<not> is_Rejected p"
    by auto
  from p Cons.prems(2) have hd: "\<not> is_Rejected (hd (ex @ [p]))"
    by (cases ex) auto
  have "\<exists>ex'. pl_body limit n task rs ex cs = (Inr (rs @ [p], ex'), c1) \<and> (\<forall>e\<in>set ex'. \<not> is_Rejected e)"
    using t hd p Cons.prems(2)
    by (cases "hd (ex @ [p])") (auto simp: pl_body_def Promise_race_snoc)
  then obtain ex' where b: "pl_body limit n task rs ex cs = (Inr (rs @ [p], ex'), c1)"
    and ex': "\<forall>e\<in>set ex'. \<not> is_Rejected e" by blast
  from Cons.IH [OF ps ex', of "rs @ [p]"] b t r show ?case by simp
qed


section \<open>Decimal digits and file names\<close>

lemma String_of_small: "n < 10 \<Longrightarrow> String_of n = [48 + n]"
  by (subst String_of.simps) simp

lemma String_of_large: "10 \<le> n \<Longrightarrow> String_of n = String_of (n div 10) @ [48 + n mod 10]"
  by (subst String_of.simps) simp

lemma String_of_digits: "\<forall>c\<in>set (String_of n). is_digit c"
proof (induction n rule: String_of.induct)
  case (1 n)
  show ?case
  proof (cases "n < 10")
    case True
    then show ?thesis by (simp add: String_of_small is_digit_def)
  next
    case False
    have "n mod 10 < 10" by simp
    then have "is_digit (48 + n mod 10)" unfolding is_digit_def by linarith
    with False 1 show ?thesis by (simp add: String_of_large)
  qed
qed

lemma digits_value_String_of: "digits_value (String_of n) = n"
proof (induction n rule: String_of.induct)
  case (1 n)
  show ?case
  proof (cases "n < 10")
    case True
    then show ?thesis by (simp add: String_of_small digits_value_def)
  next
    case False
    with 1 have "digits_value (String_of (n div 10)) = n div 10" by simp
    with False show ?thesis
      by (simp add: String_of_large digits_value_def)
  qed
qed

lemma digits_value_zeros: "digits_value (replicate k 48 @ s) = digits_value s"
proof -
  have "foldl (\<lambda>a d. 10 * a + (d - 48)) 0 (replicate k (48::nat)) = 0"
    by (induction k) simp_all
  then show ?thesis by (simp add: digits_value_def)
qed

lemma digits_value_padStart: "digits_value (padStart k 48 (String_of n)) = n"
  by (simp add: padStart_def digits_value_zeros digits_value_String_of)

lemma padStart_digits: "\<forall>c\<in>set (padStart k 48 (String_of n)). is_digit c"
  using String_of_digits [of n] by (auto simp: padStart_def is_digit_def)

lemma padStart3_1: "padStart 3 c [x] = [c, c, x]"
  by (simp add: padStart_def numeral_2_eq_2)

lemma padStart3_2: "padStart 3 c [x, y] = [c, x, y]"
  by (simp add: padStart_def)

lemma padStart3_3: "padStart 3 c [x, y, z] = [x, y, z]"
  by (simp add: padStart_def)

lemma padStart3_String_of: "n < 1000 \<Longrightarrow>
   padStart 3 48 (String_of n) = [48 + n div 100, 48 + (n div 10) mod 10, 48 + n mod 10]"
proof -
  assume n: "n < 1000"
  consider "n < 10" | "10 \<le> n" "n < 100" | "100 \<le> n" by linarith
  then show ?thesis
  proof cases
    case 1
    then show ?thesis by (simp add: String_of_small padStart3_1)
  next
    case 2
    then have "n div 10 < 10" by simp
    with 2 have "String_of n = [48 + n div 10, 48 + n mod 10]"
      by (simp add: String_of_large String_of_small)
    moreover from 2 have "n div 100 = 0" "n div 10 mod 10 = n div 10" by simp_all
    ultimately show ?thesis by (simp add: padStart3_2)
  next
    case 3
    with n have a: "n div 10 \<ge> 10" "n div 10 div 10 < 10" by simp_all
    have b: "n div 10 div 10 = n div 100" by (simp add: div_mult2_eq)
    from 3 a b have "String_of n = [48 + n div 100, 48 + n div 10 mod 10, 48 + n mod 10]"
      by (simp add: String_of_large [of n] String_of_large [of "n div 10"] String_of_small)
    then show ?thesis by (simp add: padStart3_3)
  qed
qed

lemma padded_inj:
  "padStart 3 0x30 (String_of (i + 1)) = padStart 3 0x30 (String_of (j + 1)) \<Longrightarrow> i = j"
proof -
  assume "padStart 3 0x30 (String_of (i + 1)) = padStart 3 0x30 (String_of (j + 1))"
  then have "digits_value (padStart 3 48 (String_of (i + 1)))
      = digits_value (padStart 3 48 (String_of (j + 1)))"
    by simp
  then show ?thesis by (simp add: digits_value_padStart)
qed

lemma filename_inj: "filename_of b i = filename_of b j \<Longrightarrow> i = j"
  by (rule padded_inj) (simp add: filename_of_def)



section \<open>What a job settles to\<close>

lemma generateAudio_nonblank:
  "trim s \<noteq> [] \<Longrightarrow>
   generateAudio E (trim s) voice outputPath rate cs =
     (case execSync E (command_line (clean_text (trim s)) voice rate outputPath) of
        NonZeroExit m \<Rightarrow> Rejected (Error (EXEC_FAILED_PREFIX @ m))
      | TimedOut m \<Rightarrow> Rejected (Error (EXEC_FAILED_PREFIX @ m))
      | Exited None \<Rightarrow> Rejected (Error AUDIO_FILE_MISSING)
      | Exited (Some bytes) \<Rightarrow>
          if bytes > 0 then Fulfilled outputPath else Rejected (Error AUDIO_FILE_EMPTY),
      cs @ [command_line (clean_text (trim s)) voice rate outputPath])"
  by (simp add: generateAudio_def Let_def clean_text_trim_nonempty)

lemma settle_of_blank:
  "trim s = [] \<Longrightarrow> settle_of E b v r i (JString s) =
     Fulfilled \<lparr>index = i, text_field = JString [], audioPath = None, success = False,
                error = Some EMPTY_TEXT\<rparr>"
  by (simp add: settle_of_def task_of_def)

lemma commands_of_blank: "trim s = [] \<Longrightarrow> commands_of E b v r i (JString s) = []"
  by (simp add: commands_of_def task_of_def)

lemma commands_of_nonblank:
  "trim s \<noteq> [] \<Longrightarrow> commands_of E b v r i (JString s) =
     [command_line (clean_text (trim s)) v r (path_join E (filename_of b i))]"
  by (simp add: commands_of_def task_of_def generateAudio_nonblank Let_def
      split: settled.splits exec_outcome.splits option.splits)

lemma settle_of_nonblank:
  "trim s \<noteq> [] \<Longrightarrow> settle_of E b v r i (JString s) =
     Fulfilled
       (case execSync E (command_line (clean_text (trim s)) v r (path_join E (filename_of b i))) of
          NonZeroExit m \<Rightarrow>
            \<lparr>index = i, text_field = JString (trim s), audioPath = None, success = False,
             error = Some (EXEC_FAILED_PREFIX @ m)\<rparr>
        | TimedOut m \<Rightarrow>
            \<lparr>index = i, text_field = JString (trim s), audioPath = None, success = False,
             error = Some (EXEC_FAILED_PREFIX @ m)\<rparr>
        | Exited None \<Rightarrow>
            \<lparr>index = i, text_field = JString (trim s), audioPath = None, success = False,
             error = Some AUDIO_FILE_MISSING\<rparr>
        | Exited (Some bytes) \<Rightarrow>
            if bytes > 0 then
              \<lparr>index = i, text_field = JString (trim s),
               audioPath = Some (ascii ''/audio/'' @ filename_of b i), success = True,
               error = None\<rparr>
            else
              \<lparr>index = i, text_field = JString (trim s), audioPath = None, success = False,
               error = Some AUDIO_FILE_EMPTY\<rparr>)"
  by (simp add: settle_of_def task_of_def generateAudio_nonblank Let_def
      split: settled.splits exec_outcome.splits option.splits)

lemma settle_of_not_string:
  "\<forall>s. x \<noteq> JString s \<Longrightarrow> settle_of E b v r i x = Rejected (Error (trim_TypeError E x))"
  by (cases x) (simp_all add: settle_of_def task_of_def)

lemma settle_of_string_fulfilled: "\<not> is_Rejected (settle_of E b v r i (JString s))"
  by (cases "trim s = []") (simp_all add: settle_of_blank settle_of_nonblank)

lemma index_settle_of: "settle_of E b v r i x = Fulfilled res \<Longrightarrow> index res = i"
proof (cases x)
  case (JString s)
  assume "settle_of E b v r i x = Fulfilled res"
  with JString show ?thesis
    by (cases "trim s = []")
      (auto simp: settle_of_blank settle_of_nonblank split: exec_outcome.splits option.splits if_splits)
qed (simp_all add: settle_of_def task_of_def)

lemma index_result_of: "index (result_of sentences i (settle_of E b v r i x)) = i"
  by (cases "settle_of E b v r i x") (simp_all add: result_of_def index_settle_of)

section \<open>The handler on an accepted request\<close>

lemma collect_settles:
  "collect sentences (map (\<lambda>(i, s). settle_of E (uuidv4 E) v r i s) (enumerate 0 sentences)) =
     map (job_result_of E v r sentences) [0..<length sentences]"
  by (rule nth_equalityI) (simp_all add: collect_def nth_enumerate_eq job_result_of_def)

lemma index_job_result_of: "index (job_result_of E v r sentences i) = i"
  by (simp add: job_result_of_def index_result_of)

lemma sort_step_job_results:
  "sort_step (map (job_result_of E v r sentences) [0..<n]) = map (job_result_of E v r sentences) [0..<n]"
proof -
  have "map index (map (job_result_of E v r sentences) [0..<n]) = [0..<n]"
    by (simp add: index_job_result_of o_def)
  then have "sorted (map index (map (job_result_of E v r sentences) [0..<n]))"
    by (simp only: sorted_upt)
  then show ?thesis unfolding sort_step_def by (rule sort_key_id_if_sorted)
qed

lemma parallelLimit_batch:
  "parallelLimit (batch_tasks E (uuidv4 E) v r sentences) limit cs = (out, cs') \<Longrightarrow>
     (\<exists>err. out = Threw err) \<or>
     (out = Returned (map (\<lambda>(i, s). settle_of E (uuidv4 E) v r i s) (enumerate 0 sentences))
      \<and> cs' = cs @ batch_commands E v r sentences)"
  unfolding parallelLimit_def batch_tasks_def batch_commands_def
  by (drule pl_loop_outcome) (simp add: run_batch_tasks)

lemma parallelLimit_batch_strings:
  "parallelLimit (batch_tasks E (uuidv4 E) v r (map JString ss)) limit cs =
     (Returned (map (\<lambda>(i, s). settle_of E (uuidv4 E) v r i s) (enumerate 0 (map JString ss))),
      cs @ batch_commands E v r (map JString ss))"
proof -
  have "\<forall>p\<in>set (map (\<lambda>(i, s). settle_of E (uuidv4 E) v r i s) (enumerate 0 (map JString ss))).
          \<not> is_Rejected p"
    by (auto simp: enumerate_eq_zip settle_of_string_fulfilled dest!: set_zip_rightD)
  then show ?thesis
    unfolding parallelLimit_def batch_tasks_def batch_commands_def
    using pl_loop_fulfilled [of "map (\<lambda>(i, s). task_of E (uuidv4 E) v r i s) (enumerate 0 (map JString ss))" cs "[]"]
    by (simp add: run_batch_tasks)
qed

lemma generate_batch_accepted:
  assumes "accepted E S req sentences"
  shows "generate_batch E S req =
     (case parallelLimit (batch_tasks E (uuidv4 E) (voice_of req) (rate_of req) sentences)
             MAX_CONCURRENT (calls S) of
        (Threw err, cs) \<Rightarrow>
          (Reply (BatchFailed500 (message err)), S\<lparr>edgeTtsAvailable := True, calls := cs\<rparr>)
      | (Hangs, cs) \<Rightarrow> (NoReply, S\<lparr>edgeTtsAvailable := True, calls := cs\<rparr>)
      | (Returned settledResults, cs) \<Rightarrow>
          (Reply (respond (uuidv4 E) sentences (sort_step (collect sentences settledResults))),
           S\<lparr>edgeTtsAvailable := True, calls := cs\<rparr>))"
  using assms by (simp add: generate_batch_def accepted_def Let_def)

lemma generate_batch_cases:
  assumes "accepted E S req sentences"
  shows "(\<exists>m S'. generate_batch E S req = (Reply (BatchFailed500 m), S')) \<or>
     generate_batch E S req =
       (Reply (Ok200 (route_outcome E req sentences)),
        S\<lparr>edgeTtsAvailable := True,
          calls := calls S @ batch_commands E (voice_of req) (rate_of req) sentences\<rparr>)"
proof -
  obtain out cs where p: "parallelLimit (batch_tasks E (uuidv4 E) (voice_of req) (rate_of req) sentences)
             MAX_CONCURRENT (calls S) = (out, cs)"
    by (cases "parallelLimit (batch_tasks E (uuidv4 E) (voice_of req) (rate_of req) sentences)
             MAX_CONCURRENT (calls S)")
  from parallelLimit_batch [OF p] show ?thesis
  proof
    assume "\<exists>err. out = Threw err"
    with p show ?thesis by (auto simp: generate_batch_accepted [OF assms])
  next
    assume "out = Returned (map (\<lambda>(i, s). settle_of E (uuidv4 E) (voice_of req) (rate_of req) i s) (enumerate 0 sentences))
      \<and> cs = calls S @ batch_commands E (voice_of req) (rate_of req) sentences"
    with p show ?thesis
      by (simp add: generate_batch_accepted [OF assms] collect_settles sort_step_job_results
          respond_def route_outcome_def)
  qed
qed

lemma generate_batch_strings:
  assumes "accepted E S req (map JString ss)"
  shows "generate_batch E S req =
       (Reply (Ok200 (route_outcome E req (map JString ss))),
        S\<lparr>edgeTtsAvailable := True,
          calls := calls S @ batch_commands E (voice_of req) (rate_of req) (map JString ss)\<rparr>)"
  by (simp add: generate_batch_accepted [OF assms] parallelLimit_batch_strings collect_settles
      sort_step_job_results respond_def route_outcome_def)

lemma generate_batch_Ok:
  assumes "generate_batch E S req = (Reply (Ok200 out), S')"
  shows "\<exists>sentences. accepted E S req sentences \<and> out = route_outcome E req sentences"
proof -
  from assms obtain sentences where a: "accepted E S req sentences"
    by (auto simp: generate_batch_def accepted_def Let_def
        split: option.splits json.splits if_splits)
  from generate_batch_cases [OF a] assms have "out = route_outcome E req sentences" by auto
  with a show ?thesis by blast
qed

lemma results_route_outcome:
  "results (route_outcome E req sentences) =
     map (job_result_of E (voice_of req) (rate_of req) sentences) [0..<length sentences]"
  by (simp add: route_outcome_def)

section \<open>The concrete batch, evaluated\<close>

lemma demo_accepted:
  "accepted demo_env demo_server (demo_request (map JString demo_sentences))
     (map JString demo_sentences)"
  by (simp add: accepted_def demo_env_def demo_server_def demo_request_def demo_sentences_def
      voice_of_def)

lemma ascii_nonempty: "ascii (c # cs) \<noteq> []"
  by (simp add: ascii_def)

lemma trim_hello: "trim (ascii ''Hello world.'') = ascii ''Hello world.''"
  by (simp add: trim_def ascii_def is_white_space_def)

lemma trim_second: "trim (ascii ''Second sentence.'') = ascii ''Second sentence.''"
  by (simp add: trim_def ascii_def is_white_space_def)

lemma trim_Nil: "trim [] = []"
  by (simp add: trim_def)

lemma demo_results:
  "results (route_outcome demo_env (demo_request (map JString demo_sentences))
      (map JString demo_sentences)) = results demo_outcome"
proof -
  have u: "[0..<3] = [0, 1, 2]" by (simp add: upt_rec)
  show ?thesis
    unfolding route_outcome_def job_result_of_def demo_sentences_def demo_outcome_def
    by (simp add: u trim_Nil result_of_def settle_of_blank settle_of_nonblank trim_hello
        trim_second filename_of_def padStart3_String_of demo_env_def ascii_nonempty)
      (simp add: ascii_def)
qed

lemma demo_route_outcome:
  "route_outcome demo_env (demo_request (map JString demo_sentences))
      (map JString demo_sentences) = demo_outcome"
proof -
  have "successCount (route_outcome demo_env (demo_request (map JString demo_sentences))
      (map JString demo_sentences)) = length (filter success (results demo_outcome))"
    using demo_results by (simp add: route_outcome_def)
  then show ?thesis
    using demo_results
    by (simp add: route_outcome_def demo_outcome_def demo_env_def demo_sentences_def)
qed

lemma demo_reply:
  "fst (generate_batch demo_env demo_server (demo_request (map JString demo_sentences))) =
     Reply (Ok200 demo_outcome)"
  by (simp add: generate_batch_strings [OF demo_accepted] demo_route_outcome)

section \<open>One result per job, in input order, consistently counted\<close>

text \<open>
  C1.  A request whose sentence list is a non-empty array of strings, and which passes the
  voice and engine checks, is answered with a result list that has exactly one entry per
  sentence, whatever the engine does for each job.  Moreover, for any array at all, a result
  list that is returned has the length of the input.
\<close>

theorem results_one_per_job:
  "(accepted E S req (map JString ss) \<longrightarrow>
      (\<exists>out S'. generate_batch E S req = (Reply (Ok200 out), S')
         \<and> length (results out) = length ss))
   \<and> (\<forall>sentences out S'.
        body_sentences req = Some (JArray sentences)
        \<and> generate_batch E S req = (Reply (Ok200 out), S')
        \<longrightarrow> length (results out) = length sentences)"
proof (intro conjI impI allI)
  assume "accepted E S req (map JString ss)"
  from generate_batch_strings [OF this]
  show "\<exists>out S'. generate_batch E S req = (Reply (Ok200 out), S')
      \<and> length (results out) = length ss"
    by (simp add: results_route_outcome)
next
  fix sentences out S'
  assume a: "body_sentences req = Some (JArray sentences)
        \<and> generate_batch E S req = (Reply (Ok200 out), S')"
  then obtain ss where "accepted E S req ss" "out = route_outcome E req ss"
    using generate_batch_Ok by blast
  with a show "length (results out) = length sentences"
    by (simp add: accepted_def results_route_outcome)
qed

theorem results_one_per_job_witness:
  "accepted demo_env demo_server (demo_request (map JString demo_sentences))
     (map JString demo_sentences)
   \<and> (\<exists>out S'. generate_batch demo_env demo_server (demo_request (map JString demo_sentences))
          = (Reply (Ok200 out), S')
        \<and> length (results out) = length demo_sentences)
   \<and> length demo_sentences = 3"
  using results_one_per_job [of demo_env demo_server "demo_request (map JString demo_sentences)"
      demo_sentences] demo_accepted
  by (simp add: demo_sentences_def)

text \<open>
  C2.  For an accepted list of strings the entry at position \<open>i\<close> of the returned results
  carries index \<open>i\<close> and the trimmed text of sentence \<open>i\<close>.  For any array, every returned
  result list has index \<open>i\<close> at position \<open>i\<close>.
\<close>

theorem results_in_input_order:
  "(accepted E S req (map JString ss) \<longrightarrow>
      (\<exists>out S'. generate_batch E S req = (Reply (Ok200 out), S')
         \<and> (\<forall>i<length ss. index (results out ! i) = i
               \<and> text_field (results out ! i) = JString (trim (ss ! i)))))
   \<and> (\<forall>out S'. generate_batch E S req = (Reply (Ok200 out), S')
        \<longrightarrow> (\<forall>i<length (results out). index (results out ! i) = i))"
proof (intro conjI impI allI)
  assume acc: "accepted E S req (map JString ss)"
  have "text_field (job_result_of E v r (map JString ss) i) = JString (trim (ss ! i))"
    if "i < length ss" for i v r
    using that
    by (cases "trim (ss ! i) = []")
       (auto simp: job_result_of_def result_of_def settle_of_blank settle_of_nonblank
          split: exec_outcome.splits option.splits)
  with generate_batch_strings [OF acc]
  show "\<exists>out S'. generate_batch E S req = (Reply (Ok200 out), S')
         \<and> (\<forall>i<length ss. index (results out ! i) = i
               \<and> text_field (results out ! i) = JString (trim (ss ! i)))"
    by (simp add: results_route_outcome index_job_result_of)
next
  fix out S' i
  assume "generate_batch E S req = (Reply (Ok200 out), S')" and i: "i < length (results out)"
  then obtain ss where "out = route_outcome E req ss"
    using generate_batch_Ok by blast
  with i show "index (results out ! i) = i"
    by (simp add: results_route_outcome index_job_result_of)
qed

theorem results_in_input_order_witness:
  "accepted demo_env demo_server (demo_request (map JString demo_sentences))
     (map JString demo_sentences)
   \<and> fst (generate_batch demo_env demo_server (demo_request (map JString demo_sentences)))
       = Reply (Ok200 demo_outcome)
   \<and> index (results demo_outcome ! 0) = 0
   \<and> index (results demo_outcome ! 1) = 1
   \<and> index (results demo_outcome ! 2) = 2
   \<and> length (results demo_outcome) = 3"
proof -
  have "generate_batch demo_env demo_server (demo_request (map JString demo_sentences))
      = (Reply (Ok200 demo_outcome),
         snd (generate_batch demo_env demo_server (demo_request (map JString demo_sentences))))"
    using demo_reply by (simp add: prod_eq_iff)
  with results_in_input_order [of demo_env demo_server
      "demo_request (map JString demo_sentences)" demo_sentences]
  have "\<forall>i<length (results demo_outcome). index (results demo_outcome ! i) = i" by blast
  moreover have "length (results demo_outcome) = 3" by (simp add: demo_outcome_def)
  ultimately have "index (results demo_outcome ! 0) = 0" "index (results demo_outcome ! 1) = 1"
    "index (results demo_outcome ! 2) = 2" by simp_all
  with demo_accepted demo_reply show ?thesis by (simp add: demo_outcome_def)
qed

text \<open>
  C7.  Whenever the handler returns a result set, its \<open>successCount\<close> is the number of
  entries of \<open>results\<close> whose \<open>success\<close> flag is set, and it is at most the number of
  sentences sent.
\<close>

theorem successCount_counts_successes:
  assumes "generate_batch E S req = (Reply (Ok200 out), S')"
  shows "successCount out = length (filter success (results out))
     \<and> (\<exists>sentences. body_sentences req = Some (JArray sentences)
          \<and> successCount out \<le> length sentences)"
proof -
  from assms obtain ss where a: "accepted E S req ss" and o: "out = route_outcome E req ss"
    using generate_batch_Ok by blast
  have "length (filter success (results out)) \<le> length (results out)" by (rule length_filter_le)
  with a o show ?thesis by (simp add: accepted_def route_outcome_def)
qed

theorem successCount_counts_successes_witness:
  "fst (generate_batch demo_env demo_server (demo_request (map JString demo_sentences)))
     = Reply (Ok200 demo_outcome)
   \<and> successCount demo_outcome = length (filter success (results demo_outcome))
   \<and> successCount demo_outcome = 2
   \<and> successCount demo_outcome \<le> length demo_sentences"
proof -
  have "generate_batch demo_env demo_server (demo_request (map JString demo_sentences))
      = (Reply (Ok200 demo_outcome),
         snd (generate_batch demo_env demo_server (demo_request (map JString demo_sentences))))"
    using demo_reply by (simp add: prod_eq_iff)
  from successCount_counts_successes [OF this] demo_reply show ?thesis
    by (simp add: demo_outcome_def demo_sentences_def demo_request_def)
qed

section \<open>The sort step\<close>

lemma sort_step_collect:
  assumes "parallelLimit (batch_tasks E (uuidv4 E) v r sentences) limit cs = (Returned sr, cs')"
  shows "sort_step (collect sentences sr) = collect sentences sr"
  using parallelLimit_batch [OF assms]
  by (simp add: collect_settles sort_step_job_results)

lemma parallelLimit_Returned:
  "parallelLimit tasks limit cs = (Returned rs, cs') \<Longrightarrow> rs = fst (run_tasks tasks cs)"
  unfolding parallelLimit_def by (drule pl_loop_outcome) simp

text \<open>
  C9.  The handler without the line \<^verbatim>\<open>results.sort(...)\<close> answers every request exactly as
  the handler does: the settlements that \<^verbatim>\<open>parallelLimit\<close> returns are those of the tasks in
  task order, so the results are already ordered by index.
\<close>

theorem sort_step_is_identity:
  "generate_batch_unsorted E S req = generate_batch E S req
   \<and> (\<forall>tasks limit cs rs cs'.
        parallelLimit tasks limit cs = (Returned rs, cs') \<longrightarrow> rs = fst (run_tasks tasks cs))"
proof (intro conjI allI impI)
  show "generate_batch_unsorted E S req = generate_batch E S req"
  proof (cases "body_sentences req")
    case None
    then show ?thesis by (simp add: generate_batch_unsorted_def generate_batch_def)
  next
    case (Some j)
    show ?thesis
    proof (cases j)
      case (JArray sentences)
      obtain out cs where p: "parallelLimit
          (batch_tasks E (uuidv4 E) (voice_of req) (rate_of req) sentences)
          MAX_CONCURRENT (calls S) = (out, cs)"
        by (cases "parallelLimit
          (batch_tasks E (uuidv4 E) (voice_of req) (rate_of req) sentences)
          MAX_CONCURRENT (calls S)")
      show ?thesis
      proof (cases out)
        case (Returned sr)
        with p have "sort_step (collect sentences sr) = collect sentences sr"
          using sort_step_collect by blast
        with Some JArray p Returned show ?thesis
          by (simp add: generate_batch_unsorted_def generate_batch_def Let_def)
      qed (use Some JArray p in \<open>simp_all add: generate_batch_unsorted_def generate_batch_def Let_def\<close>)
    qed (use Some in \<open>simp_all add: generate_batch_unsorted_def generate_batch_def\<close>)
  qed
next
  fix tasks :: "'a task list" and limit cs rs cs'
  assume "parallelLimit tasks limit cs = (Returned rs, cs')"
  then show "rs = fst (run_tasks tasks cs)" by (rule parallelLimit_Returned)
qed

theorem sort_step_is_identity_witness:
  "generate_batch_unsorted demo_env demo_server (demo_request (map JString demo_sentences))
     = generate_batch demo_env demo_server (demo_request (map JString demo_sentences))
   \<and> (\<exists>rs cs'.
        parallelLimit (batch_tasks demo_env (uuidv4 demo_env) DEFAULT_VOICE (ascii ''+0%'')
          (map JString demo_sentences)) MAX_CONCURRENT [] = (Returned rs, cs')
        \<and> rs = fst (run_tasks (batch_tasks demo_env (uuidv4 demo_env) DEFAULT_VOICE (ascii ''+0%'')
          (map JString demo_sentences)) [])
        \<and> length rs = 3)"
proof -
  let ?tasks = "batch_tasks demo_env (uuidv4 demo_env) DEFAULT_VOICE (ascii ''+0%'')
          (map JString demo_sentences)"
  obtain rs cs' where p: "parallelLimit ?tasks MAX_CONCURRENT [] = (Returned rs, cs')"
    using parallelLimit_batch_strings [of demo_env DEFAULT_VOICE "ascii ''+0%''" demo_sentences
        MAX_CONCURRENT "[]"] by blast
  with sort_step_is_identity [of demo_env demo_server
      "demo_request (map JString demo_sentences)"]
  have e: "generate_batch_unsorted demo_env demo_server (demo_request (map JString demo_sentences))
     = generate_batch demo_env demo_server (demo_request (map JString demo_sentences))"
    and r: "rs = fst (run_tasks ?tasks [])"
    by blast+
  have "length ?tasks = 3" by (simp add: batch_tasks_def demo_sentences_def)
  with r have "length rs = 3" by (simp only: run_tasks_length)
  with e p r show ?thesis by blast
qed

section \<open>Validation of the sentence list\<close>

text \<open>
  C5, as the spec states it, fails: an empty sentence list is not answered with an empty
  outcome but with the 400 response of an invalid list, and nothing else happens.
\<close>

theorem empty_list_rejected_counterexample:
  "generate_batch demo_env demo_server (demo_request []) = (Reply InvalidSentences400, demo_server)"
  by (simp add: generate_batch_def demo_request_def)

text \<open>
  C5, amended.  The handler answers with the invalid-list response exactly when the sentence
  list is absent, not an array, or empty; in that case the server state is unchanged, so
  no job has been dispatched.
\<close>

theorem invalid_sentences_rejected:
  "(fst (generate_batch E S req) = Reply InvalidSentences400
      \<longleftrightarrow> \<not> (\<exists>sentences. body_sentences req = Some (JArray sentences) \<and> sentences \<noteq> []))
   \<and> (fst (generate_batch E S req) = Reply InvalidSentences400
        \<longrightarrow> snd (generate_batch E S req) = S)"
  unfolding generate_batch_def Let_def
  by (auto simp: respond_def split: option.splits json.splits pl_outcome.splits prod.splits)

theorem invalid_sentences_rejected_witness:
  "fst (generate_batch demo_env demo_server (demo_request [])) = Reply InvalidSentences400
   \<and> snd (generate_batch demo_env demo_server (demo_request [])) = demo_server
   \<and> fst (generate_batch demo_env demo_server
        \<lparr>body_sentences = None, body_voice = None, body_rate = None\<rparr>) = Reply InvalidSentences400
   \<and> fst (generate_batch demo_env demo_server
        \<lparr>body_sentences = Some (JString (ascii ''Hello'')), body_voice = None, body_rate = None\<rparr>)
       = Reply InvalidSentences400
   \<and> fst (generate_batch demo_env demo_server (demo_request (map JString demo_sentences)))
       \<noteq> Reply InvalidSentences400"
  using invalid_sentences_rejected [of demo_env demo_server "demo_request []"]
    invalid_sentences_rejected [of demo_env demo_server
      "\<lparr>body_sentences = None, body_voice = None, body_rate = None\<rparr>"]
    invalid_sentences_rejected [of demo_env demo_server
      "\<lparr>body_sentences = Some (JString (ascii ''Hello'')), body_voice = None, body_rate = None\<rparr>"]
    invalid_sentences_rejected [of demo_env demo_server "demo_request (map JString demo_sentences)"]
  by (simp add: demo_request_def demo_sentences_def)

section \<open>Elements that are not strings\<close>

lemma pl_loop_head_rejected:
  assumes "limit \<le> n" and "length (Rejected err # ex0) < limit"
    and "limit \<le> length (Rejected err # ex0) + length tasks"
  shows "fst (pl_loop limit n tasks rs (Rejected err # ex0) cs) = Threw err"
  using assms
proof (induction tasks arbitrary: rs ex0 cs)
  case Nil
  then show ?case by simp
next
  case (Cons task tasks)
  obtain p c1 where t: "task cs = (p, c1)" by (cases "task cs")
  show ?case
  proof (cases "limit \<le> length ((Rejected err # ex0) @ [p])")
    case True
    with t Cons.prems(1) show ?thesis
      by (simp add: pl_body_def Promise_race_def)
  next
    case False
    with t Cons.prems(1) have b: "pl_body limit n task rs (Rejected err # ex0) cs
        = (Inr (rs @ [p], Rejected err # (ex0 @ [p])), c1)"
      by (simp add: pl_body_def)
    from False Cons.prems have "fst (pl_loop limit n tasks (rs @ [p]) (Rejected err # (ex0 @ [p])) c1) = Threw err"
      by (intro Cons.IH) simp_all
    with b show ?thesis by simp
  qed
qed

lemma parallelLimit_first_rejected:
  assumes "limit \<le> length (task # tasks)" and "fst (task cs) = Rejected err"
  shows "fst (parallelLimit (task # tasks) limit cs) = Threw err"
proof -
  obtain c1 where t: "task cs = (Rejected err, c1)" using assms(2) by (cases "task cs") simp
  show ?thesis
  proof (cases "limit \<le> 1")
    case True
    with t assms(1) show ?thesis
      by (simp add: parallelLimit_def pl_body_def Promise_race_def)
  next
    case False
    with t assms(1) have b: "pl_body limit (length (task # tasks)) task [] [] cs
        = (Inr ([Rejected err], [Rejected err]), c1)"
      by (simp add: pl_body_def)
    from False assms(1)
    have "fst (pl_loop limit (length (task # tasks)) tasks [Rejected err] (Rejected err # []) c1) = Threw err"
      by (intro pl_loop_head_rejected) simp_all
    with b show ?thesis by (simp add: parallelLimit_def)
  qed
qed

lemma generate_batch_first_not_string:
  assumes acc: "accepted E S req (x # xs)" and len: "MAX_CONCURRENT \<le> length (x # xs)"
    and x: "\<forall>s. x \<noteq> JString s"
  shows "fst (generate_batch E S req) = Reply (BatchFailed500 (trim_TypeError E x))"
proof -
  let ?tasks = "batch_tasks E (uuidv4 E) (voice_of req) (rate_of req) (x # xs)"
  have tasks: "?tasks = task_of E (uuidv4 E) (voice_of req) (rate_of req) 0 x
      # map (\<lambda>(i, s). task_of E (uuidv4 E) (voice_of req) (rate_of req) i s) (enumerate 1 xs)"
    by (simp add: batch_tasks_def)
  have "fst (task_of E (uuidv4 E) (voice_of req) (rate_of req) 0 x (calls S))
      = Rejected (Error (trim_TypeError E x))"
    using x by (simp add: task_of_split settle_of_not_string)
  moreover have "MAX_CONCURRENT \<le> length ?tasks" using len by (simp add: batch_tasks_def)
  ultimately have "fst (parallelLimit ?tasks MAX_CONCURRENT (calls S))
      = Threw (Error (trim_TypeError E x))"
    unfolding tasks by (intro parallelLimit_first_rejected) simp_all
  then show ?thesis
    by (cases "parallelLimit ?tasks MAX_CONCURRENT (calls S)")
       (simp add: generate_batch_accepted [OF acc])
qed

lemma parallelLimit_untracked:
  assumes "length tasks < limit"
  shows "parallelLimit tasks limit cs = (Returned (fst (run_tasks tasks cs)), snd (run_tasks tasks cs))"
proof -
  have "pl_loop limit n ts rs ex cs = (Returned (rs @ fst (run_tasks ts cs)), snd (run_tasks ts cs))"
    if "n < limit" for n ts rs ex and cs :: "js_string list"
    using that
  proof (induction ts arbitrary: rs cs)
    case Nil
    then show ?case by simp
  next
    case (Cons t ts)
    obtain p c1 where t: "t cs = (p, c1)" by (cases "t cs")
    with Cons.prems have "pl_body limit n t rs ex cs = (Inr (rs @ [p], ex), c1)"
      by (simp add: pl_body_def)
    with Cons.IH [OF Cons.prems, of "rs @ [p]" c1] t show ?case
      by (simp split: prod.splits)
  qed
  from this [OF assms, of tasks "[]" "[]" cs] show ?thesis by (simp add: parallelLimit_def)
qed

lemma generate_batch_short:
  assumes acc: "accepted E S req sentences" and len: "length sentences < MAX_CONCURRENT"
  shows "fst (generate_batch E S req) = Reply (Ok200 (route_outcome E req sentences))"
  using len
  by (simp add: generate_batch_accepted [OF acc] parallelLimit_untracked batch_tasks_def
      run_batch_tasks collect_settles sort_step_job_results respond_def route_outcome_def)

lemma job_result_of_not_string:
  assumes "\<forall>s. sentences ! i \<noteq> JString s"
  shows "job_result_of E v r sentences i =
     \<lparr>index = i, text_field = sentences ! i, audioPath = None, success = False,
      error = Some (if trim_TypeError E (sentences ! i) = [] then UNKNOWN_ERROR
                    else trim_TypeError E (sentences ! i))\<rparr>"
  using assms by (simp add: job_result_of_def settle_of_not_string result_of_def)

text \<open>
  C10.  With five sentences of which the first is the number 42, the task of the first
  sentence is rejected, the first awaited race is rejected with it, and the handler answers
  with the 500 response of its \<^verbatim>\<open>catch\<close> block instead of a result set.
\<close>

theorem rejected_first_job_fails_batch:
  "fst (generate_batch demo_env demo_server (demo_request bad_sentences))
     = Reply (BatchFailed500 (ascii ''sentence.trim is not a function''))"
proof -
  have "accepted demo_env demo_server (demo_request bad_sentences) bad_sentences"
    by (simp add: accepted_def demo_env_def demo_server_def demo_request_def bad_sentences_def
      voice_of_def)
  then have "fst (generate_batch demo_env demo_server (demo_request bad_sentences))
     = Reply (BatchFailed500 (trim_TypeError demo_env (JNumber 42)))"
    unfolding bad_sentences_def
    by (rule generate_batch_first_not_string) (simp_all add: MAX_CONCURRENT_def)
  then show ?thesis by (simp add: demo_env_def)
qed

section \<open>Engine commands of a batch\<close>

lemma underscore_not_digit: "c \<in> set (padStart 3 0x30 (String_of n)) \<Longrightarrow> c \<noteq> 0x5F"
  using padStart_digits [of 3 n] by (auto simp: is_digit_def)

lemma append_Cons_cancel:
  "x \<notin> set xs \<Longrightarrow> x \<notin> set xs' \<Longrightarrow> xs @ x # ys = xs' @ x # ys' \<Longrightarrow> xs = xs'"
proof (induction xs arbitrary: xs')
  case Nil
  then show ?case by (cases xs') auto
next
  case (Cons a xs)
  then show ?case by (cases xs') auto
qed

lemma command_line_filename_inj:
  assumes "command_line t v r (path_join E (filename_of b i))
         = command_line t' v r (path_join E (filename_of b j))"
  shows "i = j"
proof -
  let ?pi = "padStart 3 0x30 (String_of (i + 1))" and ?pj = "padStart 3 0x30 (String_of (j + 1))"
  let ?tail = "ascii ''.mp3'' @ [0x22]"
  define X where "X = ascii ''edge-tts --text '' @ [0x22] @ t @ [0x22] @ ascii '' --voice '' @ v
     @ ascii '' --rate '' @ r @ ascii '' --write-media '' @ [0x22] @ audioDir E @ [path_sep E] @ b"
  define Y where "Y = ascii ''edge-tts --text '' @ [0x22] @ t' @ [0x22] @ ascii '' --voice '' @ v
     @ ascii '' --rate '' @ r @ ascii '' --write-media '' @ [0x22] @ audioDir E @ [path_sep E] @ b"
  have l: "command_line t v r (path_join E (filename_of b i)) = (X @ 0x5F # ?pi) @ ?tail"
    by (simp add: command_line_def path_join_def filename_of_def X_def ascii_def)
  have r: "command_line t' v r (path_join E (filename_of b j)) = (Y @ 0x5F # ?pj) @ ?tail"
    by (simp add: command_line_def path_join_def filename_of_def Y_def ascii_def)
  from assms l r have "X @ 0x5F # ?pi = Y @ 0x5F # ?pj" by (simp only: append_same_eq)
  then have "rev (X @ 0x5F # ?pi) = rev (Y @ 0x5F # ?pj)" by simp
  then have "rev ?pi @ 0x5F # rev X = rev ?pj @ 0x5F # rev Y" by simp
  moreover have "0x5F \<notin> set (rev ?pi)" "0x5F \<notin> set (rev ?pj)"
    using underscore_not_digit by auto
  ultimately have "rev ?pi = rev ?pj"
    using append_Cons_cancel [of "0x5F" "rev ?pi" "rev ?pj" "rev X" "rev Y"] by blast
  then have "?pi = ?pj" by simp
  then show ?thesis by (rule padded_inj)
qed

lemma job_command_inj:
  "job_command E v r i t = job_command E v r j t' \<Longrightarrow> i = j"
  unfolding job_command_def by (rule command_line_filename_inj)

lemma concat_map_if: "concat (map (\<lambda>x. if P x then [f x] else []) xs) = map f (filter P xs)"
  by (induction xs) simp_all

lemma commands_of_string:
  "commands_of E (uuidv4 E) v r i (JString s) =
     (if trim s \<noteq> [] then [job_command E v r i (trim s)] else [])"
  by (simp add: commands_of_blank commands_of_nonblank job_command_def)

lemma batch_commands_strings:
  "batch_commands E v r (map JString ss) =
     map (\<lambda>i. job_command E v r i (trim (ss ! i)))
       (filter (\<lambda>i. trim (ss ! i) \<noteq> []) [0..<length ss])"
proof -
  have "map (\<lambda>(i, s). commands_of E (uuidv4 E) v r i s) (enumerate 0 (map JString ss)) =
      map (\<lambda>i. if trim (ss ! i) \<noteq> [] then [job_command E v r i (trim (ss ! i))] else [])
        [0..<length ss]"
    by (rule nth_equalityI) (simp_all add: nth_enumerate_eq commands_of_string)
  then show ?thesis by (simp add: batch_commands_def concat_map_if)
qed

lemma length_filter_nth:
  "length (filter (\<lambda>i. P (xs ! i)) [0..<length xs]) = length (filter P xs)"
proof -
  have "map (\<lambda>i. xs ! i) [0..<length xs] = xs" by (rule map_nth)
  then have "length (filter P xs) = length (filter P (map (\<lambda>i. xs ! i) [0..<length xs]))"
    by simp
  also have "\<dots> = length (filter (\<lambda>i. P (xs ! i)) [0..<length xs])"
    by (simp add: filter_map o_def)
  finally show ?thesis by simp
qed

lemma settle_of_execSync_cong:
  assumes "trim s \<noteq> [] \<Longrightarrow>
     f (job_command E v r j (trim s)) = execSync E (job_command E v r j (trim s))"
  shows "settle_of (E\<lparr>execSync := f\<rparr>) (uuidv4 E) v r j (JString s)
       = settle_of E (uuidv4 E) v r j (JString s)"
proof (cases "trim s = []")
  case True
  then show ?thesis by (simp add: settle_of_blank)
next
  case False
  with assms show ?thesis
    by (simp add: settle_of_nonblank job_command_def path_join_def)
qed

lemma accepted_execSync: "accepted (E\<lparr>execSync := f\<rparr>) S req sentences = accepted E S req sentences"
  by (simp add: accepted_def)

lemma job_result_of_string:
  "i < length ss \<Longrightarrow>
   job_result_of E v r (map JString ss) i =
     (if trim (ss ! i) = [] then blank_result i
      else case execSync E (job_command E v r i (trim (ss ! i))) of
          Exited (Some bytes) \<Rightarrow>
            if bytes > 0 then
              \<lparr>index = i, text_field = JString (trim (ss ! i)),
               audioPath = Some (ascii ''/audio/'' @ filename_of (uuidv4 E) i), success = True,
               error = None\<rparr>
            else
              \<lparr>index = i, text_field = JString (trim (ss ! i)), audioPath = None,
               success = False, error = Some AUDIO_FILE_EMPTY\<rparr>
        | outcome \<Rightarrow>
            \<lparr>index = i, text_field = JString (trim (ss ! i)), audioPath = None, success = False,
             error = Some (failure_message outcome)\<rparr>)"
  by (simp add: job_result_of_def result_of_def settle_of_blank settle_of_nonblank blank_result_def
      job_command_def split: exec_outcome.splits option.splits)

lemma job_result_of_failed:
  assumes "i < length ss" "trim (ss ! i) \<noteq> []"
    and "engine_failed (execSync E (job_command E v r i (trim (ss ! i))))"
  shows "job_result_of E v r (map JString ss) i =
     \<lparr>index = i, text_field = JString (trim (ss ! i)), audioPath = None, success = False,
      error = Some (failure_message (execSync E (job_command E v r i (trim (ss ! i)))))\<rparr>"
proof (cases "execSync E (job_command E v r i (trim (ss ! i)))")
  case (Exited sz)
  with assms show ?thesis by (cases sz) (simp_all add: job_result_of_string)
qed (use assms in \<open>simp_all add: job_result_of_string\<close>)

lemma job_result_of_success:
  assumes "i < length ss" "success (job_result_of E v r (map JString ss) i)"
  shows "trim (ss ! i) \<noteq> []
     \<and> audioPath (job_result_of E v r (map JString ss) i)
         = Some (ascii ''/audio/'' @ filename_of (uuidv4 E) i)"
  using assms
  by (auto simp: job_result_of_string blank_result_def split: exec_outcome.splits option.splits if_splits)

lemma job_result_of_execSync_cong:
  assumes "i < length ss"
    and "trim (ss ! i) \<noteq> [] \<Longrightarrow>
      f (job_command E v r i (trim (ss ! i))) = execSync E (job_command E v r i (trim (ss ! i)))"
  shows "job_result_of (E\<lparr>execSync := f\<rparr>) v r (map JString ss) i = job_result_of E v r (map JString ss) i"
  using assms settle_of_execSync_cong [of "ss ! i" f E v r i]
  by (simp add: job_result_of_def)

lemma calls_after_batch:
  assumes "accepted E S req (map JString ss)"
  shows "calls (snd (generate_batch E S req)) =
     calls S @ map (\<lambda>i. job_command E (voice_of req) (rate_of req) i (trim (ss ! i)))
       (filter (\<lambda>i. trim (ss ! i) \<noteq> []) [0..<length ss])"
  by (simp add: generate_batch_strings [OF assms] batch_commands_strings)

lemma pl_body_blank:
  assumes "trim s = []" and "limit \<le> n" and "length ex + 1 < limit"
  shows "pl_body limit n (task_of E b v r i (JString s)) rs ex cs =
     (Inr (rs @ [Fulfilled (blank_result i)], ex @ [Fulfilled (blank_result i)]), cs)"
  using assms
  by (simp add: pl_body_def task_of_split settle_of_blank commands_of_blank blank_result_def)

lemma voice_of_demo: "voice_of (demo_request x) = DEFAULT_VOICE"
  by (simp add: voice_of_def demo_request_def)

lemma rate_of_demo: "rate_of (demo_request x) = ascii ''+0%''"
  by (simp add: rate_of_def demo_request_def)

lemma job_command_execSync: "job_command (E\<lparr>execSync := f\<rparr>) v r i t = job_command E v r i t"
  by (simp add: job_command_def path_join_def)

lemma demo_generate_batch:
  "generate_batch demo_env demo_server (demo_request (map JString demo_sentences))
      = (Reply (Ok200 demo_outcome),
         snd (generate_batch demo_env demo_server (demo_request (map JString demo_sentences))))"
  using demo_reply by (simp add: prod_eq_iff)

section \<open>Failure isolation\<close>

text \<open>
  C6.  Let job \<open>i\<close> of an accepted list of strings have a non-blank text, and let the engine
  fail on it: it exits with a non-zero status or cannot be run, it is killed at the time
  limit, or it leaves the output file missing or empty.  Then the handler still answers
  with a result set, the entry of job \<open>i\<close> is a failure that carries the message of that
  failure, and every other entry is what it is under any engine \<open>f\<close> that behaves differently
  on job \<open>i\<close> only.
\<close>

theorem job_failures_are_isolated:
  assumes acc: "accepted E S req (map JString ss)"
    and i: "i < length ss" and nonblank: "trim (ss ! i) \<noteq> []"
    and failed: "engine_failed (execSync E (job_command E (voice_of req) (rate_of req) i (trim (ss ! i))))"
    and same: "\<forall>c. c \<noteq> job_command E (voice_of req) (rate_of req) i (trim (ss ! i))
                 \<longrightarrow> f c = execSync E c"
  shows "\<exists>out S'. generate_batch E S req = (Reply (Ok200 out), S')
      \<and> results out ! i =
          \<lparr>index = i, text_field = JString (trim (ss ! i)), audioPath = None, success = False,
           error = Some (failure_message
             (execSync E (job_command E (voice_of req) (rate_of req) i (trim (ss ! i)))))\<rparr>
      \<and> (\<exists>out' S''. generate_batch (E\<lparr>execSync := f\<rparr>) S req = (Reply (Ok200 out'), S'')
            \<and> (\<forall>j<length ss. j \<noteq> i \<longrightarrow> results out' ! j = results out ! j))"
proof -
  let ?v = "voice_of req" and ?r = "rate_of req"
  let ?E' = "E\<lparr>execSync := f\<rparr>"
  have acc': "accepted ?E' S req (map JString ss)" using acc by (simp add: accepted_execSync)
  have other: "job_result_of ?E' ?v ?r (map JString ss) j = job_result_of E ?v ?r (map JString ss) j"
    if "j < length ss" "j \<noteq> i" for j
  proof (rule job_result_of_execSync_cong [OF that(1)])
    have "job_command E ?v ?r j (trim (ss ! j)) \<noteq> job_command E ?v ?r i (trim (ss ! i))"
      using that(2) job_command_inj by blast
    with same show "f (job_command E ?v ?r j (trim (ss ! j)))
        = execSync E (job_command E ?v ?r j (trim (ss ! j)))" by blast
  qed
  have "results (route_outcome E req (map JString ss)) ! i =
          \<lparr>index = i, text_field = JString (trim (ss ! i)), audioPath = None, success = False,
           error = Some (failure_message (execSync E (job_command E ?v ?r i (trim (ss ! i)))))\<rparr>"
    using i nonblank failed by (simp add: results_route_outcome job_result_of_failed)
  moreover have "\<forall>j<length ss. j \<noteq> i \<longrightarrow>
      results (route_outcome ?E' req (map JString ss)) ! j
        = results (route_outcome E req (map JString ss)) ! j"
    using other by (simp add: results_route_outcome)
  ultimately show ?thesis
    using generate_batch_strings [OF acc] generate_batch_strings [OF acc'] by blast
qed

theorem job_failures_are_isolated_witness:
  "accepted failing_env demo_server (demo_request (map JString four_sentences))
     (map JString four_sentences)
   \<and> engine_failed (execSync failing_env
        (job_command failing_env DEFAULT_VOICE (ascii ''+0%'') (Suc 0) (trim (four_sentences ! Suc 0))))
   \<and> (\<exists>out S'. generate_batch failing_env demo_server (demo_request (map JString four_sentences))
          = (Reply (Ok200 out), S')
        \<and> results out ! Suc 0 =
            \<lparr>index = Suc 0, text_field = JString (ascii ''Two.''), audioPath = None, success = False,
             error = Some (EXEC_FAILED_PREFIX @ ascii ''Command failed'')\<rparr>
        \<and> (\<exists>out' S''. generate_batch (failing_env\<lparr>execSync := execSync demo_env\<rparr>) demo_server
                (demo_request (map JString four_sentences)) = (Reply (Ok200 out'), S'')
              \<and> results out' ! 0 = results out ! 0
              \<and> results out' ! 2 = results out ! 2
              \<and> results out' ! 3 = results out ! 3))"
proof -
  let ?req = "demo_request (map JString four_sentences)"
  let ?c = "job_command failing_env DEFAULT_VOICE (ascii ''+0%'') (Suc 0) (trim (four_sentences ! Suc 0))"
  have t: "trim (four_sentences ! Suc 0) = ascii ''Two.''"
    by (simp add: four_sentences_def trim_def ascii_def is_white_space_def)
  have c: "?c = job_command demo_env DEFAULT_VOICE (ascii ''+0%'') (Suc 0) (ascii ''Two.'')"
    by (simp add: t failing_env_def job_command_execSync)
  have a: "accepted failing_env demo_server ?req (map JString four_sentences)"
    by (simp add: accepted_def failing_env_def demo_env_def demo_server_def demo_request_def
        four_sentences_def voice_of_def)
  have i: "Suc 0 < length four_sentences" by (simp add: four_sentences_def)
  have nb: "trim (four_sentences ! Suc 0) \<noteq> []" by (simp add: t ascii_nonempty)
  have e: "execSync failing_env ?c = NonZeroExit (ascii ''Command failed'')"
    by (simp only: c) (simp add: failing_env_def)
  then have f: "engine_failed (execSync failing_env ?c)" by simp
  from e have e': "execSync failing_env
      (job_command failing_env DEFAULT_VOICE (ascii ''+0%'') (Suc 0) (ascii ''Two.''))
        = NonZeroExit (ascii ''Command failed'')" by (simp only: t)
  have s: "\<forall>c. c \<noteq> ?c \<longrightarrow> execSync demo_env c = execSync failing_env c"
    by (simp only: c) (simp add: failing_env_def demo_env_def)
  from job_failures_are_isolated [of failing_env demo_server ?req four_sentences "Suc 0"
      "execSync demo_env", unfolded voice_of_demo rate_of_demo, OF a i nb f s]
  obtain out S' out' S'' where
    "generate_batch failing_env demo_server ?req = (Reply (Ok200 out), S')"
    "results out ! Suc 0 =
          \<lparr>index = Suc 0, text_field = JString (trim (four_sentences ! Suc 0)), audioPath = None,
           success = False, error = Some (failure_message (execSync failing_env ?c))\<rparr>"
    "generate_batch (failing_env\<lparr>execSync := execSync demo_env\<rparr>) demo_server ?req
       = (Reply (Ok200 out'), S'')"
    "\<forall>j<length four_sentences. j \<noteq> Suc 0 \<longrightarrow> results out' ! j = results out ! j"
    by blast
  moreover from this(4) have "results out' ! 0 = results out ! 0"
    "results out' ! 2 = results out ! 2" "results out' ! 3 = results out ! 3"
    by (simp_all add: four_sentences_def)
  ultimately show ?thesis using a f by (simp add: e' t)
qed

section \<open>Names of the audio files\<close>

text \<open>
  C8.  For a successful job at position \<open>i\<close> the result refers to the file whose name is the
  batch identifier, an underscore, \<open>i + 1\<close> in decimal digits filled with zeros on the left
  to three digits, and \<^verbatim>\<open>.mp3\<close>; the engine was run with that file in the audio directory as
  its output.  Up to 999 sentences the number has exactly three digits.  The names of
  different positions differ.
\<close>

theorem artifact_names:
  assumes acc: "accepted E S req (map JString ss)" and i: "i < length ss"
  shows "\<exists>out S'. generate_batch E S req = (Reply (Ok200 out), S')
      \<and> (success (results out ! i) \<longrightarrow>
            audioPath (results out ! i) = Some (ascii ''/audio/'' @ filename_of (uuidv4 E) i)
            \<and> command_line (clean_text (trim (ss ! i))) (voice_of req) (rate_of req)
                 (path_join E (filename_of (uuidv4 E) i)) \<in> set (calls S'))
      \<and> filename_of (uuidv4 E) i
           = uuidv4 E @ ascii ''_'' @ padStart 3 0x30 (String_of (i + 1)) @ ascii ''.mp3''
      \<and> (i + 1 < 1000 \<longrightarrow>
            padStart 3 0x30 (String_of (i + 1))
              = [0x30 + (i + 1) div 100, 0x30 + (i + 1) div 10 mod 10, 0x30 + (i + 1) mod 10])
      \<and> (\<forall>j. j \<noteq> i \<longrightarrow> filename_of (uuidv4 E) j \<noteq> filename_of (uuidv4 E) i)"
proof -
  let ?v = "voice_of req" and ?r = "rate_of req"
  let ?out = "route_outcome E req (map JString ss)"
  let ?S' = "snd (generate_batch E S req)"
  have g: "generate_batch E S req = (Reply (Ok200 ?out), ?S')"
    by (simp add: generate_batch_strings [OF acc])
  have "audioPath (results ?out ! i) = Some (ascii ''/audio/'' @ filename_of (uuidv4 E) i)
      \<and> command_line (clean_text (trim (ss ! i))) ?v ?r (path_join E (filename_of (uuidv4 E) i))
           \<in> set (calls ?S')"
    if s: "success (results ?out ! i)"
  proof -
    from s i have "success (job_result_of E ?v ?r (map JString ss) i)"
      by (simp add: results_route_outcome)
    from job_result_of_success [OF i this]
    have nb: "trim (ss ! i) \<noteq> []"
      and ap: "audioPath (job_result_of E ?v ?r (map JString ss) i)
         = Some (ascii ''/audio/'' @ filename_of (uuidv4 E) i)" by simp_all
    from nb i have "job_command E ?v ?r i (trim (ss ! i)) \<in> set (calls ?S')"
      by (simp add: calls_after_batch [OF acc])
    with ap i show ?thesis by (simp add: results_route_outcome job_command_def)
  qed
  moreover have "i + 1 < 1000 \<longrightarrow>
            padStart 3 0x30 (String_of (i + 1))
              = [0x30 + (i + 1) div 100, 0x30 + (i + 1) div 10 mod 10, 0x30 + (i + 1) mod 10]"
    using padStart3_String_of [of "i + 1"] by simp
  moreover have "\<forall>j. j \<noteq> i \<longrightarrow> filename_of (uuidv4 E) j \<noteq> filename_of (uuidv4 E) i"
    using filename_inj by blast
  moreover have "filename_of (uuidv4 E) i
           = uuidv4 E @ ascii ''_'' @ padStart 3 0x30 (String_of (i + 1)) @ ascii ''.mp3''"
    by (simp add: filename_of_def)
  ultimately show ?thesis using g by blast
qed

theorem artifact_names_witness:
  "accepted demo_env demo_server (demo_request (map JString demo_sentences))
     (map JString demo_sentences)
   \<and> 2 < length demo_sentences
   \<and> fst (generate_batch demo_env demo_server (demo_request (map JString demo_sentences)))
       = Reply (Ok200 demo_outcome)
   \<and> success (results demo_outcome ! 2)
   \<and> audioPath (results demo_outcome ! 2) = Some (ascii ''/audio/'' @ filename_of (uuidv4 demo_env) 2)
   \<and> filename_of (uuidv4 demo_env) 2 = ascii ''batchXYZ_003.mp3''
   \<and> filename_of (uuidv4 demo_env) 0 \<noteq> filename_of (uuidv4 demo_env) 2"
proof -
  have i: "2 < length demo_sentences" by (simp add: demo_sentences_def)
  have s: "success (results demo_outcome ! 2)" by (simp add: demo_outcome_def)
  from artifact_names [OF demo_accepted i] demo_generate_batch s
  have "audioPath (results demo_outcome ! 2)
      = Some (ascii ''/audio/'' @ filename_of (uuidv4 demo_env) 2)"
    and "filename_of (uuidv4 demo_env) 2
           = uuidv4 demo_env @ ascii ''_'' @ padStart 3 0x30 (String_of (2 + 1)) @ ascii ''.mp3''"
    and "padStart 3 0x30 (String_of (2 + 1)) = [0x30 + (2 + 1) div 100, 0x30 + (2 + 1) div 10 mod 10, 0x30 + (2 + 1) mod (10::nat)]"
    and "filename_of (uuidv4 demo_env) 0 \<noteq> filename_of (uuidv4 demo_env) 2"
    by auto
  with demo_accepted i demo_reply s show ?thesis
    by (simp add: demo_env_def ascii_def)
qed

section \<open>Blank sentences\<close>

text \<open>The state in which the loop makes a pass is a state of the run: from there the loop
  goes on with the remaining tasks.  For a batch of strings every pass is reached, with none
  but fulfilled entries in \<open>executing\<close>.\<close>

lemma pl_state_before_loop:
  "pl_state_before limit n tasks k rs ex cs = Some (rs', ex', cs') \<Longrightarrow>
     pl_loop limit n tasks rs ex cs = pl_loop limit n (drop k tasks) rs' ex' cs'"
proof (induction tasks arbitrary: k rs ex cs)
  case Nil
  then show ?case by (cases k) simp_all
next
  case (Cons task tasks)
  show ?case
  proof (cases k)
    case 0
    with Cons.prems show ?thesis by simp
  next
    case (Suc k')
    with Cons.prems obtain rs1 ex1 c1 where
      b: "pl_body limit n task rs ex cs = (Inr (rs1, ex1), c1)"
      and s: "pl_state_before limit n tasks k' rs1 ex1 c1 = Some (rs', ex', cs')"
      by (auto split: prod.splits sum.splits)
    from Cons.IH [OF s] b Suc show ?thesis by simp
  qed
qed

lemma pl_body_fulfilled:
  assumes t: "task cs = (p, c1)" and p: "\<not> is_Rejected p"
    and ex: "\<forall>e\<in>set ex. \<not> is_Rejected e"
    and w: "limit \<le> n \<longrightarrow> length ex < limit" and u: "\<not> limit \<le> n \<longrightarrow> ex = []"
  shows "\<exists>ex1. pl_body limit n task rs ex cs = (Inr (rs @ [p], ex1), c1)
      \<and> (\<forall>e\<in>set ex1. \<not> is_Rejected e)
      \<and> (limit \<le> n \<longrightarrow> length ex1 < limit) \<and> (\<not> limit \<le> n \<longrightarrow> ex1 = [])
      \<and> ex1 = (if limit \<le> n then
                 if length ex + 1 < limit then ex @ [p] else []
               else ex)"
proof -
  from p ex have hd: "\<not> is_Rejected (hd (ex @ [p]))" by (cases ex) auto
  from p ex have f: "filter is_Rejected (ex @ [p]) = []" by (auto simp: filter_empty_conv)
  from hd obtain v where v: "hd (ex @ [p]) = Fulfilled v" by (cases "hd (ex @ [p])") auto
  show ?thesis
    using t p ex w u f v
    by (auto simp: pl_body_def Promise_race_snoc)
qed

lemma pl_state_before_fulfilled:
  assumes "\<forall>p\<in>set (fst (run_tasks tasks cs)). \<not> is_Rejected p"
    and "\<forall>e\<in>set ex. \<not> is_Rejected e"
    and "limit \<le> n \<longrightarrow> length ex < limit" and "\<not> limit \<le> n \<longrightarrow> ex = []"
    and "k \<le> length tasks"
  shows "\<exists>ex'. pl_state_before limit n tasks k rs ex cs
        = Some (rs @ fst (run_tasks (take k tasks) cs), ex', snd (run_tasks (take k tasks) cs))
      \<and> (\<forall>e\<in>set ex'. \<not> is_Rejected e)
      \<and> (limit \<le> n \<longrightarrow> length ex' < limit) \<and> (\<not> limit \<le> n \<longrightarrow> ex' = [])"
  using assms
proof (induction tasks arbitrary: k rs ex cs)
  case Nil
  then show ?case by simp
next
  case (Cons task tasks)
  show ?case
  proof (cases k)
    case 0
    with Cons.prems show ?thesis by simp
  next
    case (Suc k')
    obtain p c1 where t: "task cs = (p, c1)" by (cases "task cs")
    from Cons.prems(1) t have p: "\<not> is_Rejected p"
      and ps: "\<forall>p\<in>set (fst (run_tasks tasks c1)). \<not> is_Rejected p"
      by (auto split: prod.splits)
    from pl_body_fulfilled [of task cs p c1 ex limit n rs] t p Cons.prems(2,3,4)
    obtain ex1 where b: "pl_body limit n task rs ex cs = (Inr (rs @ [p], ex1), c1)"
      and e1: "\<forall>e\<in>set ex1. \<not> is_Rejected e"
      and w1: "limit \<le> n \<longrightarrow> length ex1 < limit" and u1: "\<not> limit \<le> n \<longrightarrow> ex1 = []"
      by blast
    from Cons.prems(5) Suc have k': "k' \<le> length tasks" by simp
    from Cons.IH [OF ps e1 w1 u1 k', of "rs @ [p]"] b t Suc show ?thesis
      by (simp add: run_tasks_Cons del: run_tasks.simps(2))
  qed
qed

lemma batch_tasks_nth:
  "i < length sentences \<Longrightarrow>
     batch_tasks E b v r sentences ! i = task_of E b v r i (sentences ! i)"
  by (simp add: batch_tasks_def nth_enumerate_eq)

lemma length_batch_tasks: "length (batch_tasks E b v r sentences) = length sentences"
  by (simp add: batch_tasks_def)

lemma batch_tasks_fulfilled:
  "\<forall>p\<in>set (fst (run_tasks (batch_tasks E (uuidv4 E) v r (map JString ss)) cs)). \<not> is_Rejected p"
proof -
  have "fst (run_tasks (batch_tasks E (uuidv4 E) v r (map JString ss)) cs)
      = map (\<lambda>(i, s). settle_of E (uuidv4 E) v r i s) (enumerate 0 (map JString ss))"
    by (simp only: batch_tasks_def run_batch_tasks fst_conv)
  then show ?thesis
    by (auto simp: enumerate_eq_zip settle_of_string_fulfilled dest!: set_zip_rightD)
qed

lemma task_of_blank:
  "trim s = [] \<Longrightarrow> task_of E b v r i (JString s) cs = (Fulfilled (blank_result i), cs)"
  by (simp add: task_of_split settle_of_blank commands_of_blank blank_result_def)

lemma blank_pass:
  assumes i: "i < length ss" and blank: "trim (ss ! i) = []" and lim: "1 \<le> limit"
  shows "\<exists>rs ex cs ex'.
      pl_state_before limit (length ss) (batch_tasks E (uuidv4 E) v r (map JString ss))
        i [] [] cs0 = Some (rs, ex, cs)
      \<and> pl_body limit (length ss) (batch_tasks E (uuidv4 E) v r (map JString ss) ! i) rs ex cs
          = (Inr (rs @ [Fulfilled (blank_result i)], ex'), cs)
      \<and> (length ss < limit \<longrightarrow> ex = [] \<and> ex' = [])
      \<and> (limit \<le> length ss \<and> length ex + 1 < limit
            \<longrightarrow> ex' = ex @ [Fulfilled (blank_result i)])
      \<and> (limit \<le> length ss \<and> \<not> length ex + 1 < limit
            \<longrightarrow> length ex + 1 = limit \<and> ex' = [])"
proof -
  let ?tasks = "batch_tasks E (uuidv4 E) v r (map JString ss)"
  let ?n = "length ss"
  have w0: "limit \<le> ?n \<longrightarrow> length ([] :: job_result settled list) < limit" using lim by simp
  from i have k: "i \<le> length ?tasks" by (simp add: length_batch_tasks)
  from pl_state_before_fulfilled [of ?tasks cs0 "[]" limit ?n i "[]"] batch_tasks_fulfilled [of E v r ss cs0] w0 k
  obtain ex where s: "pl_state_before limit ?n ?tasks i [] [] cs0
        = Some ([] @ fst (run_tasks (take i ?tasks) cs0), ex, snd (run_tasks (take i ?tasks) cs0))"
    and e: "\<forall>e\<in>set ex. \<not> is_Rejected e"
    and w: "limit \<le> ?n \<longrightarrow> length ex < limit" and u: "\<not> limit \<le> ?n \<longrightarrow> ex = []"
    by auto
  let ?rs = "fst (run_tasks (take i ?tasks) cs0)" and ?cs = "snd (run_tasks (take i ?tasks) cs0)"
  have t: "(?tasks ! i) ?cs = (Fulfilled (blank_result i), ?cs)"
    using i blank by (simp add: batch_tasks_nth task_of_blank)
  from pl_body_fulfilled [of "?tasks ! i" ?cs "Fulfilled (blank_result i)" ?cs ex limit ?n ?rs] t e w u
  obtain ex' where b: "pl_body limit ?n (?tasks ! i) ?rs ex ?cs
        = (Inr (?rs @ [Fulfilled (blank_result i)], ex'), ?cs)"
    and x: "ex' = (if limit \<le> ?n then
                 if length ex + 1 < limit then ex @ [Fulfilled (blank_result i)] else []
               else ex)"
    by auto
  from w have f: "limit \<le> ?n \<and> \<not> length ex + 1 < limit \<longrightarrow> length ex + 1 = limit" by auto
  from s b x u f show ?thesis by (intro exI [of _ ?rs] exI [of _ ex] exI [of _ ?cs] exI [of _ ex']) auto
qed

lemma blank_batch_accepted:
  "accepted demo_env demo_server (demo_request (map JString blank_batch)) (map JString blank_batch)"
  by (simp add: accepted_def demo_env_def demo_server_def demo_request_def blank_batch_def
      voice_of_def)

text \<open>
  C4, as the spec states it, fails in one part: in a batch of at least \<^verbatim>\<open>MAX_CONCURRENT\<close>
  sentences a blank job does take a slot of the limiter.  In the batch of five sentences whose
  first sentence is two spaces, the loop starts with empty arrays, and after the pass for the
  blank sentence the array \<^verbatim>\<open>executing\<close> holds an entry for it.
\<close>

theorem blank_job_takes_slot_counterexample:
  "pl_state_before MAX_CONCURRENT (length blank_batch)
     (batch_tasks demo_env (uuidv4 demo_env) DEFAULT_VOICE (ascii ''+0%'') (map JString blank_batch))
     0 [] [] [] = Some ([], [], [])
   \<and> pl_body MAX_CONCURRENT (length blank_batch)
       (batch_tasks demo_env (uuidv4 demo_env) DEFAULT_VOICE (ascii ''+0%'')
          (map JString blank_batch) ! 0) [] [] []
     = (Inr ([Fulfilled (blank_result 0)], [Fulfilled (blank_result 0)]), [])"
proof -
  have t: "trim (ascii ''  '') = []" by (simp add: trim_def ascii_def is_white_space_def)
  have "batch_tasks demo_env (uuidv4 demo_env) DEFAULT_VOICE (ascii ''+0%'')
          (map JString blank_batch) ! 0
      = task_of demo_env (uuidv4 demo_env) DEFAULT_VOICE (ascii ''+0%'') 0 (JString (ascii ''  ''))"
    by (simp add: batch_tasks_nth blank_batch_def)
  moreover have "length blank_batch = 5" by (simp add: blank_batch_def)
  ultimately show ?thesis using t by (simp add: pl_body_blank MAX_CONCURRENT_def)
qed

text \<open>
  C4, amended.  A job whose text is blank is never dispatched to the engine: the batch issues
  one engine command per non-blank sentence and none with the output file of the blank job,
  so no execution time limit applies to it.  Its result is the failure with the fixed
  message.  Whether it takes a slot of the limiter depends on the size of the batch.  In the
  run of the batch the pass for the blank job is reached and issues no command; with fewer
  than \<^verbatim>\<open>MAX_CONCURRENT\<close> sentences \<^verbatim>\<open>executing\<close> is empty before and after that pass, and
  with \<^verbatim>\<open>MAX_CONCURRENT\<close> sentences or more the entry of the blank job is pushed: it either
  stays in \<^verbatim>\<open>executing\<close> for the next pass, or it is the entry that completes a window of
  \<^verbatim>\<open>MAX_CONCURRENT\<close> entries, whose race is then awaited and whose entries are all spliced.
\<close>

theorem blank_job_not_dispatched:
  assumes acc: "accepted E S req (map JString ss)" and i: "i < length ss"
    and blank: "trim (ss ! i) = []"
  shows "\<exists>out S'. generate_batch E S req = (Reply (Ok200 out), S')
      \<and> results out ! i = blank_result i
      \<and> (\<exists>new. calls S' = calls S @ new
            \<and> length new = length (filter (\<lambda>s. trim s \<noteq> []) ss)
            \<and> (\<forall>t. command_line t (voice_of req) (rate_of req)
                      (path_join E (filename_of (uuidv4 E) i)) \<notin> set new))
      \<and> (\<exists>rs ex cs ex'.
            pl_state_before MAX_CONCURRENT (length ss)
              (batch_tasks E (uuidv4 E) (voice_of req) (rate_of req) (map JString ss))
              i [] [] (calls S) = Some (rs, ex, cs)
            \<and> pl_body MAX_CONCURRENT (length ss)
                (batch_tasks E (uuidv4 E) (voice_of req) (rate_of req) (map JString ss) ! i)
                rs ex cs
              = (Inr (rs @ [Fulfilled (blank_result i)], ex'), cs)
            \<and> (length ss < MAX_CONCURRENT \<longrightarrow> ex = [] \<and> ex' = [])
            \<and> (MAX_CONCURRENT \<le> length ss \<and> length ex + 1 < MAX_CONCURRENT
                  \<longrightarrow> ex' = ex @ [Fulfilled (blank_result i)])
            \<and> (MAX_CONCURRENT \<le> length ss \<and> \<not> length ex + 1 < MAX_CONCURRENT
                  \<longrightarrow> length ex + 1 = MAX_CONCURRENT \<and> ex' = []))"
proof -
  let ?v = "voice_of req" and ?r = "rate_of req"
  let ?out = "route_outcome E req (map JString ss)"
  let ?S' = "snd (generate_batch E S req)"
  let ?new = "map (\<lambda>i. job_command E ?v ?r i (trim (ss ! i)))
       (filter (\<lambda>i. trim (ss ! i) \<noteq> []) [0..<length ss])"
  have g: "generate_batch E S req = (Reply (Ok200 ?out), ?S')"
    by (simp add: generate_batch_strings [OF acc])
  have r: "results ?out ! i = blank_result i"
    using i blank by (simp add: results_route_outcome job_result_of_string)
  have c: "calls ?S' = calls S @ ?new" by (rule calls_after_batch [OF acc])
  have l: "length ?new = length (filter (\<lambda>s. trim s \<noteq> []) ss)"
    using length_filter_nth [of "\<lambda>s. trim s \<noteq> []" ss] by simp
  have n: "command_line t ?v ?r (path_join E (filename_of (uuidv4 E) i)) \<notin> set ?new" for t
  proof
    assume "command_line t ?v ?r (path_join E (filename_of (uuidv4 E) i)) \<in> set ?new"
    then obtain j where j: "trim (ss ! j) \<noteq> []"
      and e: "command_line t ?v ?r (path_join E (filename_of (uuidv4 E) i))
          = job_command E ?v ?r j (trim (ss ! j))" by auto
    from e have "i = j" unfolding job_command_def by (rule command_line_filename_inj)
    with j blank show False by simp
  qed
  have m: "1 \<le> MAX_CONCURRENT" by (simp add: MAX_CONCURRENT_def)
  from g r c l n blank_pass [OF i blank m, of E ?v ?r "calls S"] show ?thesis by blast
qed

theorem blank_job_not_dispatched_witness:
  "accepted demo_env demo_server (demo_request (map JString demo_sentences))
     (map JString demo_sentences)
   \<and> 1 < length demo_sentences \<and> trim (demo_sentences ! 1) = []
   \<and> length demo_sentences < MAX_CONCURRENT
   \<and> fst (generate_batch demo_env demo_server (demo_request (map JString demo_sentences)))
       = Reply (Ok200 demo_outcome)
   \<and> results demo_outcome ! 1 = blank_result 1
   \<and> (\<exists>new. calls (snd (generate_batch demo_env demo_server
          (demo_request (map JString demo_sentences)))) = calls demo_server @ new
        \<and> length new = 2
        \<and> command_line [] DEFAULT_VOICE (ascii ''+0%'')
             (path_join demo_env (filename_of (uuidv4 demo_env) 1)) \<notin> set new)
   \<and> (\<exists>rs cs.
        pl_state_before MAX_CONCURRENT (length demo_sentences)
          (batch_tasks demo_env (uuidv4 demo_env) DEFAULT_VOICE (ascii ''+0%'')
             (map JString demo_sentences)) 1 [] [] (calls demo_server) = Some (rs, [], cs)
        \<and> pl_body MAX_CONCURRENT (length demo_sentences)
            (batch_tasks demo_env (uuidv4 demo_env) DEFAULT_VOICE (ascii ''+0%'')
               (map JString demo_sentences) ! 1) rs [] cs
          = (Inr (rs @ [Fulfilled (blank_result 1)], []), cs))
   \<and> accepted demo_env demo_server (demo_request (map JString blank_batch))
       (map JString blank_batch)
   \<and> 0 < length blank_batch \<and> trim (blank_batch ! 0) = []
   \<and> MAX_CONCURRENT \<le> length blank_batch
   \<and> pl_state_before MAX_CONCURRENT (length blank_batch)
       (batch_tasks demo_env (uuidv4 demo_env) DEFAULT_VOICE (ascii ''+0%'')
          (map JString blank_batch)) 0 [] [] (calls demo_server) = Some ([], [], [])
   \<and> pl_body MAX_CONCURRENT (length blank_batch)
       (batch_tasks demo_env (uuidv4 demo_env) DEFAULT_VOICE (ascii ''+0%'')
          (map JString blank_batch) ! 0) [] [] []
     = (Inr ([Fulfilled (blank_result 0)], [Fulfilled (blank_result 0)]), [])"
proof -
  have i: "1 < length demo_sentences" by (simp add: demo_sentences_def)
  have b: "trim (demo_sentences ! 1) = []" by (simp add: demo_sentences_def trim_Nil)
  have s: "length demo_sentences < MAX_CONCURRENT"
    by (simp add: demo_sentences_def MAX_CONCURRENT_def)
  have l: "length (filter (\<lambda>s. trim s \<noteq> []) demo_sentences) = 2"
    by (simp add: demo_sentences_def trim_Nil trim_hello trim_second ascii_nonempty)
  from blank_job_not_dispatched [OF demo_accepted i b, unfolded voice_of_demo rate_of_demo]
  obtain out S' new rs ex cs ex' where
    G: "generate_batch demo_env demo_server (demo_request (map JString demo_sentences))
          = (Reply (Ok200 out), S')"
    and A: "results out ! 1 = blank_result 1"
    "calls S' = calls demo_server @ new"
    "length new = length (filter (\<lambda>s. trim s \<noteq> []) demo_sentences)"
    "\<forall>t. command_line t DEFAULT_VOICE (ascii ''+0%'')
        (path_join demo_env (filename_of (uuidv4 demo_env) 1)) \<notin> set new"
    "pl_state_before MAX_CONCURRENT (length demo_sentences)
          (batch_tasks demo_env (uuidv4 demo_env) DEFAULT_VOICE (ascii ''+0%'')
             (map JString demo_sentences)) 1 [] [] (calls demo_server) = Some (rs, ex, cs)"
    "pl_body MAX_CONCURRENT (length demo_sentences)
            (batch_tasks demo_env (uuidv4 demo_env) DEFAULT_VOICE (ascii ''+0%'')
               (map JString demo_sentences) ! 1) rs ex cs
          = (Inr (rs @ [Fulfilled (blank_result 1)], ex'), cs)"
    "length demo_sentences < MAX_CONCURRENT \<longrightarrow> ex = [] \<and> ex' = []"
    by blast
  from G demo_generate_batch have o: "out = demo_outcome"
    and S': "S' = snd (generate_batch demo_env demo_server
          (demo_request (map JString demo_sentences)))"
    by simp_all
  from A(7) s have e: "ex = []" "ex' = []" by simp_all
  have i0: "0 < length blank_batch" by (simp add: blank_batch_def)
  have b0: "trim (blank_batch ! 0) = []"
    by (simp add: blank_batch_def trim_def ascii_def is_white_space_def)
  have s0: "MAX_CONCURRENT \<le> length blank_batch"
    by (simp add: blank_batch_def MAX_CONCURRENT_def)
  from blank_job_not_dispatched [OF blank_batch_accepted i0 b0,
      unfolded voice_of_demo rate_of_demo]
  obtain rs0 ex0 cs0 ex0' where B:
    "pl_state_before MAX_CONCURRENT (length blank_batch)
       (batch_tasks demo_env (uuidv4 demo_env) DEFAULT_VOICE (ascii ''+0%'')
          (map JString blank_batch)) 0 [] [] (calls demo_server) = Some (rs0, ex0, cs0)"
    "pl_body MAX_CONCURRENT (length blank_batch)
       (batch_tasks demo_env (uuidv4 demo_env) DEFAULT_VOICE (ascii ''+0%'')
          (map JString blank_batch) ! 0) rs0 ex0 cs0
     = (Inr (rs0 @ [Fulfilled (blank_result 0)], ex0'), cs0)"
    "MAX_CONCURRENT \<le> length blank_batch \<and> length ex0 + 1 < MAX_CONCURRENT
                  \<longrightarrow> ex0' = ex0 @ [Fulfilled (blank_result 0)]"
    by blast
  from B(1) have z: "rs0 = []" "ex0 = []" "cs0 = []" by (simp_all add: demo_server_def)
  with B(3) s0 have z': "ex0' = [Fulfilled (blank_result 0)]"
    by (simp add: MAX_CONCURRENT_def)
  from B(1,2) z z' have C: "pl_state_before MAX_CONCURRENT (length blank_batch)
       (batch_tasks demo_env (uuidv4 demo_env) DEFAULT_VOICE (ascii ''+0%'')
          (map JString blank_batch)) 0 [] [] (calls demo_server) = Some ([], [], [])"
    "pl_body MAX_CONCURRENT (length blank_batch)
       (batch_tasks demo_env (uuidv4 demo_env) DEFAULT_VOICE (ascii ''+0%'')
          (map JString blank_batch) ! 0) [] [] []
     = (Inr ([Fulfilled (blank_result 0)], [Fulfilled (blank_result 0)]), [])"
    by simp_all
  have D: "\<exists>new. calls (snd (generate_batch demo_env demo_server
          (demo_request (map JString demo_sentences)))) = calls demo_server @ new
        \<and> length new = 2
        \<and> command_line [] DEFAULT_VOICE (ascii ''+0%'')
             (path_join demo_env (filename_of (uuidv4 demo_env) 1)) \<notin> set new"
  proof (intro exI [of _ new] conjI)
    show "calls (snd (generate_batch demo_env demo_server
          (demo_request (map JString demo_sentences)))) = calls demo_server @ new"
      using A(2) S' by simp
    show "length new = 2" using A(3) l by simp
    show "command_line [] DEFAULT_VOICE (ascii ''+0%'')
             (path_join demo_env (filename_of (uuidv4 demo_env) 1)) \<notin> set new"
      using A(4) by blast
  qed
  have F: "\<exists>rs cs.
        pl_state_before MAX_CONCURRENT (length demo_sentences)
          (batch_tasks demo_env (uuidv4 demo_env) DEFAULT_VOICE (ascii ''+0%'')
             (map JString demo_sentences)) 1 [] [] (calls demo_server) = Some (rs, [], cs)
        \<and> pl_body MAX_CONCURRENT (length demo_sentences)
            (batch_tasks demo_env (uuidv4 demo_env) DEFAULT_VOICE (ascii ''+0%'')
               (map JString demo_sentences) ! 1) rs [] cs
          = (Inr (rs @ [Fulfilled (blank_result 1)], []), cs)"
  proof (intro exI [of _ rs] exI [of _ cs] conjI)
    show "pl_state_before MAX_CONCURRENT (length demo_sentences)
          (batch_tasks demo_env (uuidv4 demo_env) DEFAULT_VOICE (ascii ''+0%'')
             (map JString demo_sentences)) 1 [] [] (calls demo_server) = Some (rs, [], cs)"
      using A(5) e by simp
    show "pl_body MAX_CONCURRENT (length demo_sentences)
            (batch_tasks demo_env (uuidv4 demo_env) DEFAULT_VOICE (ascii ''+0%'')
               (map JString demo_sentences) ! 1) rs [] cs
          = (Inr (rs @ [Fulfilled (blank_result 1)], []), cs)"
      using A(6) e by simp
  qed
  from A(1) o have R: "results demo_outcome ! 1 = blank_result 1" by simp
  from demo_accepted i b s demo_reply R D F blank_batch_accepted i0 b0 s0 C
  show ?thesis by (intro conjI)
qed

section \<open>The bound on simultaneous jobs\<close>

lemma pl_inv_init: "1 \<le> limit \<Longrightarrow> pl_inv limit n pl_init"
  by (simp add: pl_inv_def pl_init_def)

lemma pl_inv_step:
  assumes "1 \<le> limit" and "pl_step limit n s s'" and "pl_inv limit n s"
  shows "pl_inv limit n s'"
  using assms(2)
proof cases
  case pass
  show ?thesis
  proof (cases "limit \<le> n")
    case True
    with assms(3) pass(2) have "length (executing s) < limit" "started s \<notin> set (executing s)"
      by (auto simp: pl_inv_def)
    with assms(3) pass True show ?thesis
      by (auto simp: pl_inv_def less_Suc_eq)
  next
    case False
    with assms(3) pass show ?thesis
      by (auto simp: pl_inv_def less_Suc_eq)
  qed
next
  case leave
  with assms(3) show ?thesis by (auto simp: pl_inv_def)
next
  case (fulfil j)
  show ?thesis
  proof (cases "limit \<le> n")
    case True
    with assms(3) fulfil(2) have j: "j \<in> set (executing s)" and d: "distinct (executing s)"
      by (auto simp: pl_inv_def)
    from j have l: "length (remove1 j (executing s)) < length (executing s)"
      by (simp add: length_remove1) (cases "executing s", auto)
    from d have s: "set (remove1 j (executing s)) = set (executing s) - {j}" by simp
    from assms(3) True l s d fulfil show ?thesis
      by (auto simp: pl_inv_def)
  next
    case False
    with assms(3) fulfil show ?thesis by (auto simp: pl_inv_def)
  qed
next
  case (reject j)
  with assms(3) show ?thesis by (auto simp: pl_inv_def)
qed

lemma pl_inv_reachable:
  assumes "1 \<le> limit" and "reachable limit n s"
  shows "pl_inv limit n s"
  using assms(2) unfolding reachable_def
proof (induction rule: rtranclp_induct)
  case base
  show ?case using assms(1) by (rule pl_inv_init)
next
  case (step s s')
  from assms(1) step.hyps(2) step.IH show ?case by (rule pl_inv_step)
qed

lemma pl_inv_bound:
  assumes "1 \<le> limit" and "pl_inv limit n s"
  shows "card (unsettled s) \<le> limit"
proof (cases "limit \<le> n")
  case True
  with assms(2) have "unsettled s \<subseteq> set (executing s)" "length (executing s) \<le> limit"
    by (simp_all add: pl_inv_def)
  then have "card (unsettled s) \<le> card (set (executing s))"
    by (intro card_mono) simp_all
  also have "\<dots> \<le> length (executing s)" by (rule card_length)
  finally show ?thesis using \<open>length (executing s) \<le> limit\<close> by simp
next
  case False
  with assms(2) have "unsettled s \<subseteq> {..<started s}" "started s \<le> n"
    by (simp_all add: pl_inv_def)
  then have "card (unsettled s) \<le> card {..<started s}"
    by (intro card_mono) simp_all
  with \<open>started s \<le> n\<close> False show ?thesis by simp
qed

lemma reachable_step: "reachable limit n s \<Longrightarrow> pl_step limit n s s' \<Longrightarrow> reachable limit n s'"
  unfolding reachable_def by (rule rtranclp.rtrancl_into_rtrancl)

lemma reachable_init: "reachable limit n pl_init"
  unfolding reachable_def by simp

lemma reachable_passes:
  assumes "k < limit" "limit \<le> n"
  shows "reachable limit n
     \<lparr>started = k, executing = [0..<k], unsettled = {..<k}, rejected = {}, mode = InLoop\<rparr>"
  using assms
proof (induction k)
  case 0
  then show ?case using reachable_init [of limit n] by (simp add: pl_init_def)
next
  case (Suc k)
  let ?s = "\<lparr>started = k, executing = [0..<k], unsettled = {..<k}, rejected = {}, mode = InLoop\<rparr>"
  from Suc have r: "reachable limit n ?s" by simp
  from Suc.prems have "pl_step limit n ?s
       (?s\<lparr>started := Suc (started ?s),
          executing := (if limit \<le> n then executing ?s @ [started ?s] else executing ?s),
          unsettled := insert (started ?s) (unsettled ?s),
          mode := (if limit \<le> n \<and> limit \<le> length (executing ?s @ [started ?s])
                   then (if \<exists>j\<in>set (executing ?s). j \<in> rejected ?s then Thrown else Awaiting)
                   else InLoop)\<rparr>)"
    by (intro pl_step.pass) simp_all
  with Suc.prems have "pl_step limit n ?s
     \<lparr>started = Suc k, executing = [0..<Suc k], unsettled = {..<Suc k}, rejected = {}, mode = InLoop\<rparr>"
    by (simp add: lessThan_Suc)
  with r show ?case by (rule reachable_step)
qed

lemma reachable_full:
  assumes "1 \<le> limit" "limit \<le> n"
  shows "reachable limit n
     \<lparr>started = limit, executing = [0..<limit], unsettled = {..<limit}, rejected = {}, mode = Awaiting\<rparr>"
proof -
  obtain k where k: "limit = Suc k" using assms(1) by (cases limit) simp_all
  let ?s = "\<lparr>started = k, executing = [0..<k], unsettled = {..<k}, rejected = {}, mode = InLoop\<rparr>"
  have r: "reachable limit n ?s" using k assms(2) by (intro reachable_passes) simp_all
  from k assms(2) have "pl_step limit n ?s
       (?s\<lparr>started := Suc (started ?s),
          executing := (if limit \<le> n then executing ?s @ [started ?s] else executing ?s),
          unsettled := insert (started ?s) (unsettled ?s),
          mode := (if limit \<le> n \<and> limit \<le> length (executing ?s @ [started ?s])
                   then (if \<exists>j\<in>set (executing ?s). j \<in> rejected ?s then Thrown else Awaiting)
                   else InLoop)\<rparr>)"
    by (intro pl_step.pass) simp_all
  with k assms(2) have "pl_step limit n ?s
     \<lparr>started = limit, executing = [0..<limit], unsettled = {..<limit}, rejected = {}, mode = Awaiting\<rparr>"
    by (simp add: lessThan_Suc)
  with r show ?thesis by (rule reachable_step)
qed

text \<open>The loop of the route keeps the same bound: a pass that starts with fewer than \<open>limit\<close>
  entries in \<open>executing\<close> hands fewer than \<open>limit\<close> entries to the next pass.\<close>

lemma filter_is_Rejected_shorter:
  "\<not> is_Rejected (hd (ex @ [p])) \<Longrightarrow> length (filter is_Rejected (ex @ [p])) \<le> length ex"
proof (cases ex)
  case Nil
  assume "\<not> is_Rejected (hd (ex @ [p]))"
  with Nil show ?thesis by simp
next
  case (Cons e es)
  assume "\<not> is_Rejected (hd (ex @ [p]))"
  with Cons have "filter is_Rejected (ex @ [p]) = filter is_Rejected (es @ [p])" by simp
  moreover have "length (filter is_Rejected (es @ [p])) \<le> length (es @ [p])"
    by (rule length_filter_le)
  ultimately show ?thesis using Cons by simp
qed

lemma pl_body_window:
  assumes "limit \<le> n" and "length ex < limit"
    and "pl_body limit n task rs ex cs = (Inr (rs', ex'), cs')"
  shows "length ex' < limit"
proof -
  obtain p c1 where t: "task cs = (p, c1)" by (cases "task cs")
  show ?thesis
  proof (cases "limit \<le> length (ex @ [p])")
    case True
    with assms(1,3) t have "\<not> is_Rejected (hd (ex @ [p]))"
      and "ex' = filter is_Rejected (ex @ [p])"
      by (auto simp: pl_body_def Promise_race_snoc split: settled.splits)
    with filter_is_Rejected_shorter [of ex p] assms(2) show ?thesis by simp
  next
    case False
    with assms(1,3) t show ?thesis by (auto simp: pl_body_def)
  qed
qed

text \<open>
  C3.  With a limit of at least one, in every state that \<^verbatim>\<open>parallelLimit\<close> can reach, whatever
  the order in which the tasks settle and whether they are fulfilled or rejected, at most
  \<open>limit\<close> tasks have been started without having settled.  An engine invocation is
  outstanding only inside such a task, so at most \<open>limit\<close> invocations are outstanding.
\<close>

theorem at_most_limit_jobs_unsettled:
  assumes "1 \<le> limit" and "reachable limit n s"
  shows "card (unsettled s) \<le> limit"
  using assms pl_inv_reachable pl_inv_bound by blast

theorem at_most_limit_jobs_unsettled_witness:
  "1 \<le> MAX_CONCURRENT
   \<and> reachable MAX_CONCURRENT 6
       \<lparr>started = 5, executing = [0, 1, 2, 3, 4], unsettled = {0, 1, 2, 3, 4}, rejected = {},
        mode = Awaiting\<rparr>
   \<and> card (unsettled \<lparr>started = 5, executing = [0, 1, 2, 3, 4], unsettled = {0, 1, 2, 3, 4},
        rejected = {}, mode = Awaiting\<rparr>) \<le> MAX_CONCURRENT
   \<and> card {0, 1, 2, 3, 4 :: nat} = 5"
proof -
  have u: "[0..<5] = [0, 1, 2, 3, 4]" by (simp add: upt_rec)
  have l: "{..<5::nat} = {0, 1, 2, 3, 4}" by auto
  have m: "1 \<le> MAX_CONCURRENT" by (simp add: MAX_CONCURRENT_def)
  have "reachable MAX_CONCURRENT 6
     \<lparr>started = MAX_CONCURRENT, executing = [0..<MAX_CONCURRENT],
      unsettled = {..<MAX_CONCURRENT}, rejected = {}, mode = Awaiting\<rparr>"
    by (rule reachable_full) (simp_all add: MAX_CONCURRENT_def)
  then have r: "reachable MAX_CONCURRENT 6
       \<lparr>started = 5, executing = [0, 1, 2, 3, 4], unsettled = {0, 1, 2, 3, 4}, rejected = {},
        mode = Awaiting\<rparr>"
    by (simp add: MAX_CONCURRENT_def u l)
  from at_most_limit_jobs_unsettled [OF m r] m r show ?thesis by simp
qed

end
